theory Spec2Isabelle
  imports Complex_Main "HOL-Library.AList"
begin

unbundle bit_operations_syntax

section \<open>Coordinate utilities (coord.js)\<close>

text \<open>
  A cube coordinate is an object with the three number fields x, y and z.  The fields are
  called \<open>cx\<close>, \<open>cy\<close>, \<open>cz\<close> here.  The record is polymorphic in the number type:
  coordinates that identify grid cells are integers (\<open>int CubeCoord\<close>), the coordinates
  produced by interpolation are fractional (\<open>rat CubeCoord\<close>, \<open>real CubeCoord\<close>).
  JavaScript numbers are modelled by exact integers, rationals or reals; the rounding of
  IEEE doubles, NaN and the infinities are outside the model.
\<close>

record 'a CubeCoord =
  cx :: 'a
  cy :: 'a
  cz :: 'a

record OffsetCoord =
  col :: int
  row :: int

definition DIRECTIONS :: "int CubeCoord list" where
  "DIRECTIONS =
    [\<lparr>cx = 1, cy = - 1, cz = 0\<rparr>,
     \<lparr>cx = 1, cy = 0, cz = - 1\<rparr>,
     \<lparr>cx = 0, cy = 1, cz = - 1\<rparr>,
     \<lparr>cx = - 1, cy = 1, cz = 0\<rparr>,
     \<lparr>cx = - 1, cy = 0, cz = 1\<rparr>,
     \<lparr>cx = 0, cy = - 1, cz = 1\<rparr>]"

definition add :: "'a::plus CubeCoord \<Rightarrow> 'a CubeCoord \<Rightarrow> 'a CubeCoord" where
  "add a b = \<lparr>cx = cx a + cx b, cy = cy a + cy b, cz = cz a + cz b\<rparr>"

definition subtract :: "'a::minus CubeCoord \<Rightarrow> 'a CubeCoord \<Rightarrow> 'a CubeCoord" where
  "subtract a b = \<lparr>cx = cx a - cx b, cy = cy a - cy b, cz = cz a - cz b\<rparr>"

definition scale :: "'a::times CubeCoord \<Rightarrow> 'a \<Rightarrow> 'a CubeCoord" where
  "scale coord factor = \<lparr>cx = cx coord * factor, cy = cy coord * factor, cz = cz coord * factor\<rparr>"

definition getDirections :: "int CubeCoord list" where
  "getDirections = DIRECTIONS"

definition equals :: "'a CubeCoord \<Rightarrow> 'a CubeCoord \<Rightarrow> bool" where
  "equals a b \<longleftrightarrow> cx a = cx b \<and> cy a = cy b \<and> cz a = cz b"

text \<open>
  The template literal of \<open>hash\<close> prints each number in decimal.  \<open>numToString\<close> is the
  decimal rendering of an integer: a minus sign for a negative number, no leading zeros.
\<close>

definition digitChar :: "nat \<Rightarrow> char" where
  "digitChar d = ''0123456789'' ! d"

fun digits :: "nat \<Rightarrow> string" where
  "digits n = (if n < 10 then [digitChar n] else digits (n div 10) @ [digitChar (n mod 10)])"

declare digits.simps [simp del]

definition numToString :: "int \<Rightarrow> string" where
  "numToString i = (if i < 0 then CHR ''-'' # digits (nat (- i)) else digits (nat i))"

definition hash :: "int CubeCoord \<Rightarrow> string" where
  "hash coord = numToString (cx coord) @ '','' @ numToString (cy coord) @ '','' @ numToString (cz coord)"

text \<open>
  Embedding of an integer coordinate into a field, for the arithmetic of the source that
  leaves the integers (the division by two of \<open>distance\<close>).
\<close>

definition toNum :: "int CubeCoord \<Rightarrow> 'a::ring_1 CubeCoord" where
  "toNum c = \<lparr>cx = of_int (cx c), cy = of_int (cy c), cz = of_int (cz c)\<rparr>"

definition distance :: "'a::linordered_field CubeCoord \<Rightarrow> 'a CubeCoord \<Rightarrow> 'a" where
  "distance a b = (\<bar>cx a - cx b\<bar> + \<bar>cy a - cy b\<bar> + \<bar>cz a - cz b\<bar>) / 2"

definition lerp :: "'a::field CubeCoord \<Rightarrow> 'a CubeCoord \<Rightarrow> 'a \<Rightarrow> 'a CubeCoord" where
  "lerp a b t =
    \<lparr>cx = cx a + (cx b - cx a) * t,
     cy = cy a + (cy b - cy a) * t,
     cz = cz a + (cz b - cz a) * t\<rparr>"

text \<open>
  \<open>Math.round\<close> rounds to the nearest integer, a half towards plus infinity:
  \<open>Math.round x = \<lfloor>x + 1/2\<rfloor>\<close>.
\<close>

definition mathRound :: "'a::floor_ceiling \<Rightarrow> int" where
  "mathRound v = \<lfloor>v + 1 / 2\<rfloor>"

definition round_cube :: "'a::floor_ceiling CubeCoord \<Rightarrow> int CubeCoord" where
  "round_cube coord =
    (let rx = mathRound (cx coord);
         ry = mathRound (cy coord);
         rz = mathRound (cz coord);
         xDiff = \<bar>of_int rx - cx coord\<bar>;
         yDiff = \<bar>of_int ry - cy coord\<bar>;
         zDiff = \<bar>of_int rz - cz coord\<bar>
     in if xDiff > yDiff \<and> xDiff > zDiff then \<lparr>cx = - ry - rz, cy = ry, cz = rz\<rparr>
        else if yDiff > zDiff then \<lparr>cx = rx, cy = - rx - rz, cz = rz\<rparr>
        else \<lparr>cx = rx, cy = ry, cz = - rx - ry\<rparr>)"

text \<open>
  The precedence as the specification words it: x when its error is strictly the greatest,
  else y when its error is strictly the greatest, else z.
\<close>

definition round_spec :: "'a::floor_ceiling CubeCoord \<Rightarrow> int CubeCoord" where
  "round_spec coord =
    (let rx = mathRound (cx coord);
         ry = mathRound (cy coord);
         rz = mathRound (cz coord);
         xDiff = \<bar>of_int rx - cx coord\<bar>;
         yDiff = \<bar>of_int ry - cy coord\<bar>;
         zDiff = \<bar>of_int rz - cz coord\<bar>
     in if xDiff > yDiff \<and> xDiff > zDiff then \<lparr>cx = - ry - rz, cy = ry, cz = rz\<rparr>
        else if yDiff > xDiff \<and> yDiff > zDiff then \<lparr>cx = rx, cy = - rx - rz, cz = rz\<rparr>
        else \<lparr>cx = rx, cy = ry, cz = - rx - ry\<rparr>)"

text \<open>
  The layout is the string the source compares with \<open>"pointy"\<close>; every other value takes
  the flat branch.  \<open>v & 1\<close> is the lowest bit of the integer, so \<open>v - (v & 1)\<close> is even
  and the division by two is exact (lemma \<open>parity_term_even\<close>): it is written \<open>div\<close>.
\<close>

definition cubeToOffset :: "int CubeCoord \<Rightarrow> string \<Rightarrow> OffsetCoord" where
  "cubeToOffset coord layout =
    (if layout = ''pointy''
     then \<lparr>col = cx coord + (cz coord - (cz coord AND 1)) div 2, row = cz coord\<rparr>
     else \<lparr>col = cx coord, row = cz coord + (cx coord - (cx coord AND 1)) div 2\<rparr>)"

definition offsetToCube :: "OffsetCoord \<Rightarrow> string \<Rightarrow> int CubeCoord" where
  "offsetToCube offset layout =
    (if layout = ''pointy''
     then (let x = col offset - (row offset - (row offset AND 1)) div 2;
               z = row offset;
               y = - x - z
           in \<lparr>cx = x, cy = y, cz = z\<rparr>)
     else (let x = col offset;
               z = row offset - (col offset - (col offset AND 1)) div 2;
               y = - x - z
           in \<lparr>cx = x, cy = y, cz = z\<rparr>))"

section \<open>Grid store (grid.js)\<close>

text \<open>
  The payload of a cell is an object whose values the library never inspects beyond the
  property \<open>id\<close> of an entity.  Objects are association lists from property names to
  values; \<open>AList.update\<close> is the assignment \<open>obj[key] = value\<close>.
\<close>

datatype jsval = VUndefined | VNull | VBool bool | VNum int | VStr string | VObj "(string \<times> jsval) list"

type_synonym jsobject = "(string \<times> jsval) list"

record Cell =
  coord :: "int CubeCoord"
  passable :: bool
  data :: jsobject

datatype GridSize = RectangleSize int int | HexSize int | CustomSize int int int int

text \<open>
  The only objects the library mutates are \<open>Map\<close> objects (\<open>set\<close>, \<open>delete\<close>), so
  these live in a store: an address is a natural number, \<open>maps st a\<close> is the content of
  the Map at address \<open>a\<close> (its entries in insertion order) and the addresses below
  \<open>allocated st\<close> are in use.  A grid holds the address of its Map in the field
  \<open>cells\<close>.  Cells, payloads and grid objects are never written after their creation and
  are values.  The field \<open>size\<close> of a grid is called \<open>gridSize\<close>.
\<close>

type_synonym cellMap = "(string \<times> Cell) list"

record Store =
  maps :: "nat \<Rightarrow> cellMap"
  allocated :: nat

record Grid =
  cells :: nat
  layout :: string
  gridSize :: GridSize

text \<open>\<open>new Map(entries)\<close>: a fresh Map object with the given entries.\<close>

definition newMap :: "Store \<Rightarrow> cellMap \<Rightarrow> Store \<times> nat" where
  "newMap st entries =
    (st\<lparr>maps := (maps st)(allocated st := entries), allocated := Suc (allocated st)\<rparr>, allocated st)"

text \<open>\<open>m.set(key, value)\<close> replaces the value of an existing key in place and appends a new key.\<close>

definition mapSet :: "Store \<Rightarrow> nat \<Rightarrow> string \<Rightarrow> Cell \<Rightarrow> Store" where
  "mapSet st a key v = st\<lparr>maps := (maps st)(a := AList.update key v (maps st a))\<rparr>"

definition mapDelete :: "Store \<Rightarrow> nat \<Rightarrow> string \<Rightarrow> Store" where
  "mapDelete st a key = st\<lparr>maps := (maps st)(a := AList.delete key (maps st a))\<rparr>"

definition mapGet :: "Store \<Rightarrow> nat \<Rightarrow> string \<Rightarrow> Cell option" where
  "mapGet st a key = map_of (maps st a) key"

definition mapHas :: "Store \<Rightarrow> nat \<Rightarrow> string \<Rightarrow> bool" where
  "mapHas st a key \<longleftrightarrow> key \<in> fst ` set (maps st a)"

text \<open>\<open>getCell\<close>: a cell object is truthy, so \<open>cells.get(key) || null\<close> is the cell or null (\<open>None\<close>).\<close>

definition getCell :: "Store \<Rightarrow> Grid \<Rightarrow> int CubeCoord \<Rightarrow> Cell option" where
  "getCell st grid c = (let key = hash c in mapGet st (cells grid) key)"

definition setCell :: "Store \<Rightarrow> Grid \<Rightarrow> int CubeCoord \<Rightarrow> Cell \<Rightarrow> Store \<times> Grid" where
  "setCell st grid c cell =
    (let (st1, newCells) = newMap st (maps st (cells grid));
         key = hash c;
         st2 = mapSet st1 newCells key (cell\<lparr>coord := c\<rparr>)
     in (st2, grid\<lparr>cells := newCells\<rparr>))"

definition updateCell :: "Store \<Rightarrow> Grid \<Rightarrow> int CubeCoord \<Rightarrow> (Cell \<Rightarrow> Cell) \<Rightarrow> Store \<times> Grid" where
  "updateCell st grid c updater =
    (case getCell st grid c of
       None \<Rightarrow> (st, grid)
     | Some cell \<Rightarrow> (let newCell = updater cell in setCell st grid c newCell))"

text \<open>
  \<open>setCellData\<close>.  An entity is an object, or \<open>undefined\<close>/\<open>null\<close> (\<open>None\<close>), which is
  skipped with a warning.  An entity with a truthy \<open>id\<close> is stored under that id (as a
  property key), any other entity is merged into the payload by \<open>Object.assign\<close>.
\<close>

fun truthy :: "jsval \<Rightarrow> bool" where
  "truthy VUndefined = False"
| "truthy VNull = False"
| "truthy (VBool b) = b"
| "truthy (VNum n) = (n \<noteq> 0)"
| "truthy (VStr s) = (s \<noteq> [])"
| "truthy (VObj ps) = True"

fun toPropertyKey :: "jsval \<Rightarrow> string" where
  "toPropertyKey VUndefined = ''undefined''"
| "toPropertyKey VNull = ''null''"
| "toPropertyKey (VBool b) = (if b then ''true'' else ''false'')"
| "toPropertyKey (VNum n) = numToString n"
| "toPropertyKey (VStr s) = s"
| "toPropertyKey (VObj ps) = ''[object Object]''"

definition objectAssign :: "jsobject \<Rightarrow> jsobject \<Rightarrow> jsobject" where
  "objectAssign target source = foldl (\<lambda>t (k, v). AList.update k v t) target source"

definition mergeEntity :: "jsobject \<Rightarrow> jsobject option \<Rightarrow> jsobject" where
  "mergeEntity newData entity =
    (case entity of
       None \<Rightarrow> newData
     | Some props \<Rightarrow>
        (case map_of props ''id'' of
           Some ident \<Rightarrow>
             if truthy ident then AList.update (toPropertyKey ident) (VObj props) newData
             else objectAssign newData props
         | None \<Rightarrow> objectAssign newData props))"

definition setCellData :: "Store \<Rightarrow> Grid \<Rightarrow> int CubeCoord \<Rightarrow> jsobject option list \<Rightarrow> Store \<times> Grid" where
  "setCellData st grid c entities =
    (case getCell st grid c of
       None \<Rightarrow> (st, grid)
     | Some cell \<Rightarrow>
         if length entities = 0 then (st, grid)
         else (let newData = foldl mergeEntity (data cell) entities
               in setCell st grid c (cell\<lparr>data := newData\<rparr>)))"

definition removeCell :: "Store \<Rightarrow> Grid \<Rightarrow> int CubeCoord \<Rightarrow> Store \<times> Grid" where
  "removeCell st grid c =
    (let (st1, newCells) = newMap st (maps st (cells grid));
         key = hash c;
         st2 = mapDelete st1 newCells key
     in (st2, grid\<lparr>cells := newCells\<rparr>))"

definition setPassable :: "Store \<Rightarrow> Grid \<Rightarrow> int CubeCoord \<Rightarrow> bool \<Rightarrow> Store \<times> Grid" where
  "setPassable st grid c p = updateCell st grid c (\<lambda>cell. cell\<lparr>passable := p\<rparr>)"

definition isPassable :: "Store \<Rightarrow> Grid \<Rightarrow> int CubeCoord \<Rightarrow> bool" where
  "isPassable st grid c = (case getCell st grid c of Some cell \<Rightarrow> passable cell | None \<Rightarrow> False)"

definition mapCells :: "Store \<Rightarrow> Grid \<Rightarrow> (Cell \<Rightarrow> Cell) \<Rightarrow> Store \<times> Grid" where
  "mapCells st grid fn =
    (let (st1, newCells) = newMap st [];
         st2 = foldl (\<lambda>s (key, cell). mapSet s newCells key (fn cell)) st1 (maps st (cells grid))
     in (st2, grid\<lparr>cells := newCells\<rparr>))"

definition hasCell :: "Store \<Rightarrow> Grid \<Rightarrow> int CubeCoord \<Rightarrow> bool" where
  "hasCell st grid c = (let key = hash c in mapHas st (cells grid) key)"

text \<open>
  Well-formed grids.  The Map of a grid is allocated; a JavaScript Map holds each key
  once; and in the grids the constructors and \<open>setCell\<close> build, each key is the hash of
  the coordinate stored in its cell.
\<close>

definition gridAllocated :: "Store \<Rightarrow> Grid \<Rightarrow> bool" where
  "gridAllocated st grid \<longleftrightarrow> cells grid < allocated st"

definition keysMatch :: "Store \<Rightarrow> Grid \<Rightarrow> bool" where
  "keysMatch st grid \<longleftrightarrow> (\<forall>(key, cell) \<in> set (maps st (cells grid)). key = hash (coord cell))"

definition keysDistinct :: "Store \<Rightarrow> Grid \<Rightarrow> bool" where
  "keysDistinct st grid \<longleftrightarrow> distinct (map fst (maps st (cells grid)))"

section \<open>Neighbor and range queries (neighbors.js)\<close>

definition getNeighbors :: "Store \<Rightarrow> Grid \<Rightarrow> int CubeCoord \<Rightarrow> bool \<Rightarrow> int CubeCoord list" where
  "getNeighbors st grid c passableOnly =
    filter (\<lambda>neighbor. hasCell st grid neighbor \<and> \<not> (passableOnly \<and> \<not> isPassable st grid neighbor))
      (map (\<lambda>direction. add c direction) getDirections)"

definition getRange :: "Store \<Rightarrow> Grid \<Rightarrow> int CubeCoord \<Rightarrow> rat \<Rightarrow> int CubeCoord list" where
  "getRange st grid c rng =
    map (\<lambda>(key, cell). coord cell)
      (filter (\<lambda>(key, cell). distance (toNum c) (toNum (coord cell)) \<le> rng) (maps st (cells grid)))"

definition getRing :: "Store \<Rightarrow> Grid \<Rightarrow> int CubeCoord \<Rightarrow> rat \<Rightarrow> int CubeCoord list" where
  "getRing st grid c radius =
    map (\<lambda>(key, cell). coord cell)
      (filter (\<lambda>(key, cell). distance (toNum c) (toNum (coord cell)) = radius) (maps st (cells grid)))"

function spiralLoop ::
  "Store \<Rightarrow> Grid \<Rightarrow> int CubeCoord \<Rightarrow> int \<Rightarrow> int \<Rightarrow> int CubeCoord list \<Rightarrow> int CubeCoord list" where
  "spiralLoop st grid center maxRadius radius results =
    (if radius \<le> maxRadius
     then (let ring = getRing st grid center (of_int radius)
           in spiralLoop st grid center maxRadius (radius + 1) (results @ ring))
     else results)"
  by pat_completeness auto
termination
  by (relation "measure (\<lambda>(st, grid, center, maxRadius, radius, results). nat (maxRadius + 1 - radius))") auto

declare spiralLoop.simps [simp del]

definition getSpiral :: "Store \<Rightarrow> Grid \<Rightarrow> int CubeCoord \<Rightarrow> int \<Rightarrow> int CubeCoord list" where
  "getSpiral st grid center maxRadius = spiralLoop st grid center maxRadius 1 [center]"

text \<open>
  \<open>getReachable\<close>.  \<open>visited\<close> is the Set of hashes, \<open>fringes\<close> the array of layers.  The
  innermost loop body is \<open>visitNeighbor\<close>, the loop over one coordinate of the previous
  layer is \<open>expandCoord\<close>, the loop over \<open>k\<close> is \<open>reachLoop\<close>.  When the loop test is
  made the array holds \<open>k\<close> layers (lemma \<open>reachLoop_inv\<close>), so \<open>fringes[k - 1]\<close> is its
  last element.
\<close>

definition visitNeighbor ::
  "string set \<times> int CubeCoord list \<Rightarrow> int CubeCoord \<Rightarrow> string set \<times> int CubeCoord list" where
  "visitNeighbor s neighbor =
    (let (visited, fringe) = s; key = hash neighbor
     in if key \<notin> visited then (insert key visited, fringe @ [neighbor]) else (visited, fringe))"

definition expandCoord ::
  "Store \<Rightarrow> Grid \<Rightarrow> string set \<times> int CubeCoord list \<Rightarrow> int CubeCoord \<Rightarrow> string set \<times> int CubeCoord list" where
  "expandCoord st grid s c = (let neighbors = getNeighbors st grid c True in foldl visitNeighbor s neighbors)"

function reachLoop ::
  "Store \<Rightarrow> Grid \<Rightarrow> int \<Rightarrow> int \<Rightarrow> string set \<Rightarrow> int CubeCoord list list \<Rightarrow> int CubeCoord list list" where
  "reachLoop st grid maxDistance k visited fringes =
    (if k \<le> maxDistance
     then (let (visited', fringe) = foldl (expandCoord st grid) (visited, []) (fringes ! nat (k - 1))
           in reachLoop st grid maxDistance (k + 1) visited' (fringes @ [fringe]))
     else fringes)"
  by pat_completeness auto
termination
  by (relation "measure (\<lambda>(st, grid, maxDistance, k, visited, fringes). nat (maxDistance + 1 - k))") auto

declare reachLoop.simps [simp del]

definition getReachable :: "Store \<Rightarrow> Grid \<Rightarrow> int CubeCoord \<Rightarrow> int \<Rightarrow> int CubeCoord list" where
  "getReachable st grid start maxDistance =
    (let fringes = reachLoop st grid maxDistance 1 {hash start} [[start]]
     in concat fringes)"

section \<open>Pathfinding (pathfinding.js)\<close>

text \<open>
  The priority queue is an array of items with their priorities; \<open>enqueue\<close> pushes and
  sorts by priority (\<open>Array.prototype.sort\<close> is stable, as \<open>sort_key\<close> is), \<open>dequeue\<close>
  shifts the first item off.
\<close>

type_synonym queueItems = "(int CubeCoord \<times> rat) list"

definition enqueue :: "queueItems \<Rightarrow> int CubeCoord \<Rightarrow> rat \<Rightarrow> queueItems" where
  "enqueue items item priority = sort_key snd (items @ [(item, priority)])"

definition dequeue :: "queueItems \<Rightarrow> int CubeCoord option \<times> queueItems" where
  "dequeue items = (case items of [] \<Rightarrow> (None, []) | x # rest \<Rightarrow> (Some (fst x), rest))"

definition isEmpty :: "queueItems \<Rightarrow> bool" where
  "isEmpty items \<longleftrightarrow> length items = 0"

definition defaultHeuristic :: "int CubeCoord \<Rightarrow> int CubeCoord \<Rightarrow> rat" where
  "defaultHeuristic a b = distance (toNum a) (toNum b)"

definition defaultCostFn :: "int CubeCoord \<Rightarrow> int CubeCoord \<Rightarrow> rat" where
  "defaultCostFn a b = 1"

text \<open>
  The state of the search: the items of the frontier and the two local Maps.  A value of
  \<open>cameFrom\<close> is a coordinate or null (\<open>None\<close>, for the start).
\<close>

record SearchState =
  frontier :: queueItems
  cameFrom :: "string \<rightharpoonup> int CubeCoord option"
  costSoFar :: "string \<rightharpoonup> rat"

text \<open>
  \<open>reconstructPath\<close>.  The loop runs while \<open>current\<close> is an object; null and undefined
  (a missing key) are \<open>None\<close>.  A cycle in \<open>cameFrom\<close> would keep it running for ever, so
  the result is an option: \<open>None\<close> for a loop that does not return.
\<close>

partial_function (option) reconstructLoop ::
  "(string \<rightharpoonup> int CubeCoord option) \<Rightarrow> string \<Rightarrow> int CubeCoord option \<Rightarrow> int CubeCoord list
    \<Rightarrow> int CubeCoord list option" where
  "reconstructLoop came startKey current path =
    (case current of
       None \<Rightarrow> Some path
     | Some c \<Rightarrow>
        (let path' = c # path; currentKey = hash c
         in if currentKey = startKey then Some path'
            else reconstructLoop came startKey
                   (case came currentKey of None \<Rightarrow> None | Some v \<Rightarrow> v) path'))"

declare reconstructLoop.simps [code]

definition reconstructPath ::
  "(string \<rightharpoonup> int CubeCoord option) \<Rightarrow> int CubeCoord \<Rightarrow> int CubeCoord \<Rightarrow> int CubeCoord list option" where
  "reconstructPath came start goal = reconstructLoop came (hash start) (Some goal) []"

text \<open>
  The body of the loop over the neighbors of \<open>current\<close>.  The cost of a dequeued
  coordinate is always recorded, for every heuristic and cost function (lemmas
  \<open>initial_frontierCosted\<close> and \<open>dequeued_has_cost\<close>), so \<open>costSoFar.get(currentKey)\<close>
  is a number; the other case of the lookup is never met and leaves the state as it is.
\<close>

definition relax ::
  "(int CubeCoord \<Rightarrow> int CubeCoord \<Rightarrow> rat) \<Rightarrow> (int CubeCoord \<Rightarrow> int CubeCoord \<Rightarrow> rat)
    \<Rightarrow> int CubeCoord \<Rightarrow> int CubeCoord \<Rightarrow> SearchState \<Rightarrow> int CubeCoord \<Rightarrow> SearchState" where
  "relax heuristic costFn goal current s nxt =
    (let currentKey = hash current; nextKey = hash nxt
     in case costSoFar s currentKey of
          None \<Rightarrow> s
        | Some currentCost \<Rightarrow>
           (let newCost = currentCost + costFn current nxt
            in if (case costSoFar s nextKey of None \<Rightarrow> True | Some old \<Rightarrow> newCost < old)
               then (let priority = newCost + heuristic nxt goal
                     in s\<lparr>frontier := enqueue (frontier s) nxt priority,
                          cameFrom := (cameFrom s)(nextKey \<mapsto> Some current),
                          costSoFar := (costSoFar s)(nextKey \<mapsto> newCost)\<rparr>)
               else s))"

text \<open>
  The main loop.  The frontier is tested for emptiness and its first item taken off; the
  result is \<open>Some None\<close> for null, \<open>Some (Some path)\<close> for a path, and \<open>None\<close> when the
  loop does not return.
\<close>

partial_function (option) searchLoop ::
  "Store \<Rightarrow> Grid \<Rightarrow> int CubeCoord \<Rightarrow> int CubeCoord
    \<Rightarrow> (int CubeCoord \<Rightarrow> int CubeCoord \<Rightarrow> rat) \<Rightarrow> (int CubeCoord \<Rightarrow> int CubeCoord \<Rightarrow> rat)
    \<Rightarrow> SearchState \<Rightarrow> int CubeCoord list option option" where
  "searchLoop st grid start goal heuristic costFn s =
    (case frontier s of
       [] \<Rightarrow> Some None
     | x # rest \<Rightarrow>
        (let current = fst x; currentKey = hash current
         in if currentKey = hash goal
            then (case reconstructPath (cameFrom s) start goal of
                    None \<Rightarrow> None
                  | Some path \<Rightarrow> Some (Some path))
            else (let neighbors = getNeighbors st grid current True
                  in searchLoop st grid start goal heuristic costFn
                       (foldl (relax heuristic costFn goal current) (s\<lparr>frontier := rest\<rparr>) neighbors))))"

declare searchLoop.simps [code]

definition findPath ::
  "Store \<Rightarrow> Grid \<Rightarrow> int CubeCoord \<Rightarrow> int CubeCoord
    \<Rightarrow> (int CubeCoord \<Rightarrow> int CubeCoord \<Rightarrow> rat) \<Rightarrow> (int CubeCoord \<Rightarrow> int CubeCoord \<Rightarrow> rat)
    \<Rightarrow> int CubeCoord list option option" where
  "findPath st grid start goal heuristic costFn =
    (if equals start goal then Some (Some [start])
     else (let startKey = hash start
           in searchLoop st grid start goal heuristic costFn
                \<lparr>frontier = enqueue [] start 0,
                 cameFrom = [startKey \<mapsto> None],
                 costSoFar = [startKey \<mapsto> 0]\<rparr>))"

definition getPathLength :: "int CubeCoord list option \<Rightarrow> nat" where
  "getPathLength path = (case path of None \<Rightarrow> 0 | Some p \<Rightarrow> length p)"

text \<open>Every item of the frontier has a recorded cost.\<close>

definition frontierCosted :: "SearchState \<Rightarrow> bool" where
  "frontierCosted s \<longleftrightarrow> (\<forall>c p. (c, p) \<in> set (frontier s) \<longrightarrow> costSoFar s (hash c) \<noteq> None)"

section \<open>Grid construction and an example grid\<close>

text \<open>
  \<open>createHexGrid\<close>: the two loops of the source, over \<open>x\<close> and over \<open>y\<close>; each cell
  gets a copy of the default payload.  The example grid is the hexagon of radius 1 built
  in the empty store.
\<close>

definition createHexGrid :: "Store \<Rightarrow> int \<Rightarrow> string \<Rightarrow> jsobject \<Rightarrow> Store \<times> Grid" where
  "createHexGrid st radius lay defaultData =
    (let (st1, newCells) = newMap st [];
         st2 = foldl (\<lambda>s x.
                 foldl (\<lambda>s y.
                     (let z = - x - y;
                          c = \<lparr>cx = x, cy = y, cz = z\<rparr>;
                          key = hash c
                      in mapSet s newCells key \<lparr>coord = c, passable = True, data = defaultData\<rparr>))
                   s [max (- radius) (- x - radius) .. min radius (- x + radius)])
               st1 [- radius .. radius]
     in (st2, \<lparr>cells = newCells, layout = lay, gridSize = HexSize radius\<rparr>))"

definition emptyStore :: Store where
  "emptyStore = \<lparr>maps = (\<lambda>a. []), allocated = 0\<rparr>"

definition hexStore :: Store where
  "hexStore = fst (createHexGrid emptyStore 1 ''pointy'' [])"

definition hexGrid :: Grid where
  "hexGrid = snd (createHexGrid emptyStore 1 ''pointy'' [])"


text \<open>The example grid with the cell (1, -1, 0) made impassable.\<close>

definition wallStore :: Store where
  "wallStore = fst (setPassable hexStore hexGrid \<lparr>cx = 1, cy = - 1, cz = 0\<rparr> False)"

definition wallGrid :: Grid where
  "wallGrid = snd (setPassable hexStore hexGrid \<lparr>cx = 1, cy = - 1, cz = 0\<rparr> False)"



section \<open>Walks over passable neighbors\<close>

text \<open>
  One hop leads from a coordinate to one of its passable neighbors, as \<open>getNeighbors\<close>
  with \<open>passableOnly\<close> lists them (the coordinate hopped from need not be a cell).
  \<open>hopsWithin st grid start m\<close> are the coordinates reached by fewer than \<open>m\<close> hops,
  \<open>hopLayer st grid start k\<close> those whose shortest hop count is exactly \<open>k\<close>.
\<close>

definition stepRel :: "Store \<Rightarrow> Grid \<Rightarrow> (int CubeCoord \<times> int CubeCoord) set" where
  "stepRel st grid = {(a, b). b \<in> set (getNeighbors st grid a True)}"

definition hopsWithin :: "Store \<Rightarrow> Grid \<Rightarrow> int CubeCoord \<Rightarrow> nat \<Rightarrow> int CubeCoord set" where
  "hopsWithin st grid start m = {c. \<exists>n<m. (start, c) \<in> stepRel st grid ^^ n}"

definition hopLayer :: "Store \<Rightarrow> Grid \<Rightarrow> int CubeCoord \<Rightarrow> nat \<Rightarrow> int CubeCoord set" where
  "hopLayer st grid start k = {c. (start, c) \<in> stepRel st grid ^^ k} - hopsWithin st grid start k"

text \<open>The invariant of the loop over \<open>k\<close>: the layers built so far and the visited set.\<close>

definition reachInv ::
  "Store \<Rightarrow> Grid \<Rightarrow> int CubeCoord \<Rightarrow> nat \<Rightarrow> string set \<Rightarrow> int CubeCoord list list \<Rightarrow> bool" where
  "reachInv st grid start j visited fringes \<longleftrightarrow>
     length fringes = j \<and> visited = hash ` hopsWithin st grid start j
     \<and> (\<forall>i<j. set (fringes ! i) = hopLayer st grid start i)"

section \<open>The invariant of the search\<close>

text \<open>
  What the proof of the pathfinder keeps true of the search state.  \<open>nodes\<close> are the
  coordinates that can carry a cost: the start and the cells of the grid.  \<open>costOf s c\<close>
  is the entry of \<open>costSoFar\<close> for \<open>c\<close>.
\<close>

definition nodes :: "Store \<Rightarrow> Grid \<Rightarrow> int CubeCoord \<Rightarrow> int CubeCoord set" where
  "nodes st grid start = insert start {c. hasCell st grid c}"

definition costOf :: "SearchState \<Rightarrow> int CubeCoord \<Rightarrow> rat option" where
  "costOf s c = costSoFar s (hash c)"

definition discovered :: "Store \<Rightarrow> Grid \<Rightarrow> int CubeCoord \<Rightarrow> SearchState \<Rightarrow> int CubeCoord set" where
  "discovered st grid start s = {c \<in> nodes st grid start. costOf s c \<noteq> None}"

text \<open>
  \<open>baseInv\<close>: the start has cost 0; every recorded cost is a natural number below the
  number of discovered coordinates; every discovered coordinate but the start has a
  predecessor in \<open>cameFrom\<close> that is one hop before it and costs at least one less; the
  frontier is sorted by priority; every item of the frontier has a recorded cost, and its
  priority is at least that cost plus the heuristic; the goal, once discovered, stays in
  the frontier.
\<close>

definition baseInv :: "Store \<Rightarrow> Grid \<Rightarrow> int CubeCoord \<Rightarrow> int CubeCoord \<Rightarrow> SearchState \<Rightarrow> bool" where
  "baseInv st grid start goal s \<longleftrightarrow>
     costOf s start = Some 0
     \<and> (\<forall>c g. costOf s c = Some g \<longrightarrow>
           (\<exists>n::nat. g = of_nat n) \<and> c \<in> nodes st grid start
           \<and> g < of_nat (card (discovered st grid start s)))
     \<and> (\<forall>c g. costOf s c = Some g \<and> c \<noteq> start \<longrightarrow>
           (\<exists>p gp. cameFrom s (hash c) = Some (Some p) \<and> (p, c) \<in> stepRel st grid
              \<and> costOf s p = Some gp \<and> gp + 1 \<le> g))
     \<and> sorted (map snd (frontier s))
     \<and> (\<forall>c p. (c, p) \<in> set (frontier s) \<longrightarrow>
           (\<exists>g. costOf s c = Some g \<and> (c \<noteq> start \<longrightarrow> g + defaultHeuristic c goal \<le> p)))
     \<and> (costOf s goal \<noteq> None \<longrightarrow> goal \<in> fst ` set (frontier s))"

text \<open>
  \<open>coverInv\<close>: every discovered coordinate either has an item in the frontier with an
  up-to-date priority, or all its passable neighbors are discovered at no more than its
  cost plus one.  For the coordinate \<open>cur\<close> that is being expanded only the neighbors in
  \<open>D\<close>, those already handled, count.
\<close>

definition coverInv ::
  "Store \<Rightarrow> Grid \<Rightarrow> int CubeCoord \<Rightarrow> int CubeCoord \<Rightarrow> int CubeCoord set \<Rightarrow> SearchState \<Rightarrow> bool" where
  "coverInv st grid goal cur D s \<longleftrightarrow>
     (\<forall>c g. costOf s c = Some g \<longrightarrow>
        (\<exists>p. (c, p) \<in> set (frontier s) \<and> p \<le> g + defaultHeuristic c goal)
        \<or> (\<forall>n. (c, n) \<in> stepRel st grid \<and> (c = cur \<longrightarrow> n \<in> D) \<longrightarrow>
              (\<exists>gn. costOf s n = Some gn \<and> gn \<le> g + 1)))"

text \<open>\<open>potential\<close> decreases with every iteration of the main loop.\<close>

definition potential :: "Store \<Rightarrow> Grid \<Rightarrow> int CubeCoord \<Rightarrow> SearchState \<Rightarrow> nat" where
  "potential st grid start s =
     (\<Sum>c \<in> nodes st grid start.
        case costOf s c of None \<Rightarrow> card (nodes st grid start) | Some g \<Rightarrow> nat \<lfloor>g\<rfloor>)
     + length (frontier s)"

text \<open>
  What \<open>findPath\<close> is to deliver: null only if no walk exists, else a walk from start to
  goal with the least number of cells.  \<open>passableWalk\<close>: a non-empty list of coordinates,
  each next one a passable neighbor of the one before.
\<close>

definition searchPost ::
  "Store \<Rightarrow> Grid \<Rightarrow> int CubeCoord \<Rightarrow> int CubeCoord \<Rightarrow> int CubeCoord list option \<Rightarrow> bool" where
  "searchPost st grid start goal r \<longleftrightarrow>
     (case r of
        None \<Rightarrow> (\<forall>k. (start, goal) \<notin> stepRel st grid ^^ k)
      | Some path \<Rightarrow>
          path \<noteq> [] \<and> hd path = start \<and> last path = goal
          \<and> successively (\<lambda>a b. (a, b) \<in> stepRel st grid) path
          \<and> (\<forall>k. (start, goal) \<in> stepRel st grid ^^ k \<longrightarrow> length path \<le> Suc k))"

definition passableWalk :: "Store \<Rightarrow> Grid \<Rightarrow> int CubeCoord list \<Rightarrow> bool" where
  "passableWalk st grid path \<longleftrightarrow>
     path \<noteq> [] \<and> successively (\<lambda>a b. b \<in> set (getNeighbors st grid a True)) path"

section \<open>Properties of the coordinate utilities\<close>

subsection \<open>The hash is injective\<close>

lemma digitChar_set: "d < 10 \<Longrightarrow> digitChar d \<in> set ''0123456789''"
  unfolding digitChar_def by (rule nth_mem) simp

lemma digitChar_inj: "a < 10 \<Longrightarrow> b < 10 \<Longrightarrow> digitChar a = digitChar b \<Longrightarrow> a = b"
proof -
  assume "a < 10" "b < 10" "digitChar a = digitChar b"
  moreover have "distinct ''0123456789''" by simp
  ultimately show ?thesis
    unfolding digitChar_def by (simp add: nth_eq_iff_index_eq)
qed

lemma digits_set: "set (digits n) \<subseteq> set ''0123456789''"
proof (induction n rule: digits.induct)
  case (1 n)
  show ?case
  proof (cases "n < 10")
    case True
    then show ?thesis using digitChar_set [of n] by (subst digits.simps) simp
  next
    case False
    have "n mod 10 < 10" by simp
    with False 1 digitChar_set [of "n mod 10"] show ?thesis
      by (subst digits.simps) simp
  qed
qed

lemma digits_nonempty: "digits n \<noteq> []"
  by (subst digits.simps) simp

lemma digits_inj: "digits n = digits m \<Longrightarrow> n = m"
proof (induction n arbitrary: m rule: digits.induct)
  case (1 n)
  show ?case
  proof (cases "n < 10")
    case True
    note n = this
    show ?thesis
    proof (cases "m < 10")
      case True
      with n 1(2) have "digitChar n = digitChar m"
        by (simp add: digits.simps [of n] digits.simps [of m])
      with n True show ?thesis
        by (rule digitChar_inj)
    next
      case False
      with n 1(2) digits_nonempty [of "m div 10"] show ?thesis
        by (simp add: digits.simps [of n] digits.simps [of m])
    qed
  next
    case False
    note n = this
    show ?thesis
    proof (cases "m < 10")
      case True
      with n 1(2) digits_nonempty [of "n div 10"] show ?thesis
        by (simp add: digits.simps [of n] digits.simps [of m])
    next
      case False
      with n 1(2) have e: "digits (n div 10) = digits (m div 10)"
        and d: "digitChar (n mod 10) = digitChar (m mod 10)"
        by (simp_all add: digits.simps [of n] digits.simps [of m])
      from 1(1) [OF n e] have "n div 10 = m div 10" .
      moreover from d have "n mod 10 = m mod 10"
        by (intro digitChar_inj) simp_all
      ultimately show ?thesis
        by (metis div_mult_mod_eq)
    qed
  qed
qed

lemma digits_not_sep: "CHR '','' \<notin> set (digits n)" "CHR ''-'' \<notin> set (digits n)"
proof -
  have "CHR '','' \<notin> set ''0123456789''" "CHR ''-'' \<notin> set ''0123456789''"
    by simp_all
  with digits_set [of n] show "CHR '','' \<notin> set (digits n)" "CHR ''-'' \<notin> set (digits n)"
    by blast+
qed

lemma numToString_no_comma: "CHR '','' \<notin> set (numToString i)"
  by (simp add: numToString_def digits_not_sep)

lemma minus_digits_neq: "CHR ''-'' # digits n \<noteq> digits m"
proof
  assume "CHR ''-'' # digits n = digits m"
  then have "CHR ''-'' \<in> set (digits m)"
    by (metis list.set_intros(1))
  with digits_not_sep(2) show False
    by blast
qed

lemma numToString_inj: "numToString i = numToString j \<Longrightarrow> i = j"
proof -
  assume e: "numToString i = numToString j"
  show ?thesis
  proof (cases "i < 0")
    case True
    note i = this
    show ?thesis
    proof (cases "j < 0")
      case True
      with i e have "digits (nat (- i)) = digits (nat (- j))"
        by (simp add: numToString_def)
      then have "nat (- i) = nat (- j)"
        by (rule digits_inj)
      with i True show ?thesis
        by simp
    next
      case False
      with i e minus_digits_neq [of "nat (- i)" "nat j"] show ?thesis
        by (simp add: numToString_def)
    qed
  next
    case False
    note i = this
    show ?thesis
    proof (cases "j < 0")
      case True
      with i e minus_digits_neq [of "nat (- j)" "nat i"] show ?thesis
        by (simp add: numToString_def)
    next
      case False
      with i e have "digits (nat i) = digits (nat j)"
        by (simp add: numToString_def)
      then have "nat i = nat j"
        by (rule digits_inj)
      with i False show ?thesis
        by simp
    qed
  qed
qed

lemma split_at_comma:
  assumes "s \<notin> set xs" and "s \<notin> set xs'"
    and "xs @ s # ys = xs' @ s # ys'"
  shows "xs = xs' \<and> ys = ys'"
  using assms
proof (induction xs arbitrary: xs')
  case Nil
  then show ?case by (cases xs') auto
next
  case (Cons a xs)
  then show ?case by (cases xs') auto
qed

lemma hash_inj: "hash a = hash b \<Longrightarrow> a = b"
proof -
  assume e: "hash a = hash b"
  note c = numToString_no_comma
  from e have e1: "numToString (cx a) @ CHR '','' # (numToString (cy a) @ CHR '','' # numToString (cz a))
      = numToString (cx b) @ CHR '','' # (numToString (cy b) @ CHR '','' # numToString (cz b))"
    by (simp add: hash_def)
  from split_at_comma [OF c c e1] have x: "numToString (cx a) = numToString (cx b)"
    and r: "numToString (cy a) @ CHR '','' # numToString (cz a) = numToString (cy b) @ CHR '','' # numToString (cz b)"
    by simp_all
  from split_at_comma [OF c c r] have y: "numToString (cy a) = numToString (cy b)"
    and z: "numToString (cz a) = numToString (cz b)"
    by simp_all
  have "cx a = cx b" "cy a = cy b" "cz a = cz b"
    using x y z by (simp_all add: numToString_inj)
  then show ?thesis
    by (intro CubeCoord.equality) simp_all
qed

lemma hash_eq_iff: "hash a = hash b \<longleftrightarrow> a = b"
  using hash_inj by blast

lemma digits_small: "n < 10 \<Longrightarrow> digits n = [digitChar n]"
  by (subst digits.simps) simp

lemma digits_big: "\<not> n < 10 \<Longrightarrow> digits n = digits (n div 10) @ [digitChar (n mod 10)]"
  by (subst digits.simps) simp

text \<open>Rewrite rules that evaluate \<open>hash\<close> on numerals.\<close>

lemmas hash_eval = hash_def numToString_def digits_small digits_big digitChar_def

subsection \<open>Rounding\<close>

lemma mathRound_near: "\<bar>of_int (mathRound v) - v\<bar> \<le> (1 / 2 :: 'a::floor_ceiling)"
proof -
  have lo: "of_int \<lfloor>v + 1 / 2\<rfloor> \<le> v + 1 / 2"
    by (rule of_int_floor_le)
  have hi: "v + 1 / 2 < of_int \<lfloor>v + 1 / 2\<rfloor> + 1"
    using floor_correct [of "v + 1 / 2"] by simp
  from lo hi show ?thesis
    unfolding mathRound_def abs_le_iff by linarith
qed

text \<open>
  C4 (as the code has it).  The result of \<open>round\<close> always satisfies x + y + z = 0.  One
  axis is recomputed from the other two, the other two keep \<open>Math.round\<close> of the input,
  which is within 1/2 of it (the rounding errors \<open>xDiff\<close>, \<open>yDiff\<close>, \<open>zDiff\<close> are at most
  1/2).  The recomputed axis is x when x's error is strictly
  greater than both others; otherwise y when y's error is strictly greater than z's
  (also when x's error ties with y's); otherwise z.
\<close>

theorem round_precedence:
  fixes coord :: "'a::floor_ceiling CubeCoord"
  defines "xDiff \<equiv> \<bar>of_int (mathRound (cx coord)) - cx coord\<bar>"
    and "yDiff \<equiv> \<bar>of_int (mathRound (cy coord)) - cy coord\<bar>"
    and "zDiff \<equiv> \<bar>of_int (mathRound (cz coord)) - cz coord\<bar>"
  shows "cx (round_cube coord) + cy (round_cube coord) + cz (round_cube coord) = 0
    \<and> xDiff \<le> 1 / 2 \<and> yDiff \<le> 1 / 2 \<and> zDiff \<le> 1 / 2
    \<and> (xDiff > yDiff \<and> xDiff > zDiff \<longrightarrow>
          cy (round_cube coord) = mathRound (cy coord) \<and> cz (round_cube coord) = mathRound (cz coord))
    \<and> (\<not> (xDiff > yDiff \<and> xDiff > zDiff) \<and> yDiff > zDiff \<longrightarrow>
          cx (round_cube coord) = mathRound (cx coord) \<and> cz (round_cube coord) = mathRound (cz coord))
    \<and> (\<not> (xDiff > yDiff \<and> xDiff > zDiff) \<and> \<not> yDiff > zDiff \<longrightarrow>
          cx (round_cube coord) = mathRound (cx coord) \<and> cy (round_cube coord) = mathRound (cy coord))"
  unfolding xDiff_def yDiff_def zDiff_def round_cube_def Let_def
  using mathRound_near [of "cx coord"] mathRound_near [of "cy coord"] mathRound_near [of "cz coord"]
  by simp

theorem round_precedence_witness:
  "(let c = \<lparr>cx = 3 / 5 :: rat, cy = - 3 / 10, cz = - 3 / 10\<rparr>
    in cx (round_cube c) + cy (round_cube c) + cz (round_cube c) = 0
       \<and> cy (round_cube c) = 0 \<and> cz (round_cube c) = 0)
   \<and> (let c = \<lparr>cx = 2 / 5 :: rat, cy = 2 / 5, cz = - 4 / 5\<rparr>
    in cx (round_cube c) + cy (round_cube c) + cz (round_cube c) = 0
       \<and> cx (round_cube c) = 0 \<and> cz (round_cube c) = - 1)
   \<and> (let c = \<lparr>cx = 1 / 5 :: rat, cy = 1 / 5, cz = - 2 / 5\<rparr>
    in cx (round_cube c) + cy (round_cube c) + cz (round_cube c) = 0
       \<and> cx (round_cube c) = 0 \<and> cy (round_cube c) = 0)"
proof -
  let ?a = "\<lparr>cx = 3 / 5 :: rat, cy = - 3 / 10, cz = - 3 / 10\<rparr>"
  let ?b = "\<lparr>cx = 2 / 5 :: rat, cy = 2 / 5, cz = - 4 / 5\<rparr>"
  let ?c = "\<lparr>cx = 1 / 5 :: rat, cy = 1 / 5, cz = - 2 / 5\<rparr>"
  have ha: "\<bar>of_int (mathRound (cx ?a)) - cx ?a\<bar> > \<bar>of_int (mathRound (cy ?a)) - cy ?a\<bar>
      \<and> \<bar>of_int (mathRound (cx ?a)) - cx ?a\<bar> > \<bar>of_int (mathRound (cz ?a)) - cz ?a\<bar>"
    by code_simp
  have ma: "mathRound (cy ?a) = 0" "mathRound (cz ?a) = 0"
    by code_simp+
  have hb: "\<not> (\<bar>of_int (mathRound (cx ?b)) - cx ?b\<bar> > \<bar>of_int (mathRound (cy ?b)) - cy ?b\<bar>
      \<and> \<bar>of_int (mathRound (cx ?b)) - cx ?b\<bar> > \<bar>of_int (mathRound (cz ?b)) - cz ?b\<bar>)
      \<and> \<bar>of_int (mathRound (cy ?b)) - cy ?b\<bar> > \<bar>of_int (mathRound (cz ?b)) - cz ?b\<bar>"
    by code_simp
  have mb: "mathRound (cx ?b) = 0" "mathRound (cz ?b) = - 1"
    by code_simp+
  have hc: "\<not> (\<bar>of_int (mathRound (cx ?c)) - cx ?c\<bar> > \<bar>of_int (mathRound (cy ?c)) - cy ?c\<bar>
      \<and> \<bar>of_int (mathRound (cx ?c)) - cx ?c\<bar> > \<bar>of_int (mathRound (cz ?c)) - cz ?c\<bar>)
      \<and> \<not> \<bar>of_int (mathRound (cy ?c)) - cy ?c\<bar> > \<bar>of_int (mathRound (cz ?c)) - cz ?c\<bar>"
    by code_simp
  have mc: "mathRound (cx ?c) = 0" "mathRound (cy ?c) = 0"
    by code_simp+
  have a: "cx (round_cube ?a) + cy (round_cube ?a) + cz (round_cube ?a) = 0
      \<and> cy (round_cube ?a) = 0 \<and> cz (round_cube ?a) = 0"
    using round_precedence [of ?a] ha ma by metis
  have b: "cx (round_cube ?b) + cy (round_cube ?b) + cz (round_cube ?b) = 0
      \<and> cx (round_cube ?b) = 0 \<and> cz (round_cube ?b) = - 1"
    using round_precedence [of ?b] hb mb by metis
  have c: "cx (round_cube ?c) + cy (round_cube ?c) + cz (round_cube ?c) = 0
      \<and> cx (round_cube ?c) = 0 \<and> cy (round_cube ?c) = 0"
    using round_precedence [of ?c] hc mc by metis
  from a b c show ?thesis
    unfolding Let_def by blast
qed

text \<open>
  C4 as the specification words it fails on a tie between the errors of x and y that
  exceeds the error of z: at (2/5, 2/5, -4/5) the errors are 2/5, 2/5 and 1/5; the worded
  precedence recomputes z and gives (0, 0, 0), the code recomputes y and gives (0, 1, -1).
\<close>

theorem round_precedence_counterexample:
  "round_cube \<lparr>cx = 2 / 5 :: rat, cy = 2 / 5, cz = - 4 / 5\<rparr> = \<lparr>cx = 0, cy = 1, cz = - 1\<rparr>
   \<and> round_spec \<lparr>cx = 2 / 5 :: rat, cy = 2 / 5, cz = - 4 / 5\<rparr> = \<lparr>cx = 0, cy = 0, cz = 0\<rparr>
   \<and> round_cube \<lparr>cx = 2 / 5 :: rat, cy = 2 / 5, cz = - 4 / 5\<rparr>
       \<noteq> round_spec \<lparr>cx = 2 / 5 :: rat, cy = 2 / 5, cz = - 4 / 5\<rparr>"
  by code_simp

subsection \<open>Offset conversions\<close>

lemma parity_term_even: "even (v - (v AND 1))" for v :: int
  by (simp add: and_one_eq)

lemma parity_term_div: "(v - (v AND 1)) div 2 = v div 2" for v :: int
  by (simp add: and_one_eq minus_mod_eq_mult_div)

text \<open>
  C5.  For both layouts (and for every other layout string, which the source treats as
  flat) and every integer cube coordinate \<open>c\<close> (x + y + z = 0),
  \<open>offsetToCube (cubeToOffset c lay) lay = c\<close>.
\<close>

theorem offset_roundtrip:
  fixes c :: "int CubeCoord"
  assumes "cx c + cy c + cz c = 0"
  shows "offsetToCube (cubeToOffset c lay) lay = c"
proof -
  from assms have y: "cy c = - cx c - cz c"
    by arith
  show ?thesis
    by (rule CubeCoord.equality) (simp_all add: offsetToCube_def cubeToOffset_def Let_def y)
qed

theorem offset_roundtrip_witness:
  "(let c = \<lparr>cx = 2, cy = 1, cz = - 3\<rparr>
    in cx c + cy c + cz c = (0::int)
       \<and> cubeToOffset c ''pointy'' = \<lparr>col = 0, row = - 3\<rparr>
       \<and> offsetToCube (cubeToOffset c ''pointy'') ''pointy'' = c
       \<and> cubeToOffset c ''flat'' = \<lparr>col = 2, row = - 2\<rparr>
       \<and> offsetToCube (cubeToOffset c ''flat'') ''flat'' = c)"
proof -
  let ?c = "\<lparr>cx = 2, cy = 1, cz = - 3\<rparr> :: int CubeCoord"
  have h: "cx ?c + cy ?c + cz ?c = 0"
    by simp
  have p: "cubeToOffset ?c ''pointy'' = \<lparr>col = 0, row = - 3\<rparr>"
    and f: "cubeToOffset ?c ''flat'' = \<lparr>col = 2, row = - 2\<rparr>"
    by (simp_all add: cubeToOffset_def and_one_eq)
  from h p f offset_roundtrip [OF h, of "''pointy''"] offset_roundtrip [OF h, of "''flat''"]
  show ?thesis
    unfolding Let_def by blast
qed

text \<open>The other direction needs no hypothesis: every integer offset coordinate comes back.\<close>

lemma offset_roundtrip_rev: "cubeToOffset (offsetToCube off lay) lay = off"
  by (simp add: offsetToCube_def cubeToOffset_def Let_def)

subsection \<open>Distance\<close>

lemma distance_sym: "distance a b = distance b a"
  by (simp add: distance_def abs_minus_commute)

lemma distance_zero_iff:
  fixes a b :: "'a::linordered_field CubeCoord"
  shows "distance a b = 0 \<longleftrightarrow> a = b"
proof
  assume "distance a b = 0"
  then have s: "\<bar>cx a - cx b\<bar> + \<bar>cy a - cy b\<bar> + \<bar>cz a - cz b\<bar> = 0"
    by (simp add: distance_def)
  have "0 \<le> \<bar>cx a - cx b\<bar>" "0 \<le> \<bar>cy a - cy b\<bar>" "0 \<le> \<bar>cz a - cz b\<bar>"
    by simp_all
  with s have "\<bar>cx a - cx b\<bar> = 0" "\<bar>cy a - cy b\<bar> = 0" "\<bar>cz a - cz b\<bar> = 0"
    by linarith+
  then show "a = b"
    by (intro CubeCoord.equality) simp_all
next
  assume "a = b"
  then show "distance a b = 0"
    by (simp add: distance_def)
qed

lemma distance_triangle:
  fixes a b c :: "'a::linordered_field CubeCoord"
  shows "distance a c \<le> distance a b + distance b c"
proof -
  have "\<bar>cx a - cx c\<bar> \<le> \<bar>cx a - cx b\<bar> + \<bar>cx b - cx c\<bar>"
    "\<bar>cy a - cy c\<bar> \<le> \<bar>cy a - cy b\<bar> + \<bar>cy b - cy c\<bar>"
    "\<bar>cz a - cz c\<bar> \<le> \<bar>cz a - cz b\<bar> + \<bar>cz b - cz c\<bar>"
    by linarith+
  then show ?thesis
    unfolding distance_def by (simp add: field_simps)
qed

lemma abs_sum3_even:
  fixes u v w :: int
  assumes "u + v + w = 0"
  shows "even (\<bar>u\<bar> + \<bar>v\<bar> + \<bar>w\<bar>)"
proof -
  have "even (\<bar>u\<bar> + \<bar>v\<bar> + \<bar>w\<bar>) \<longleftrightarrow> even (u + v + w)"
    by simp
  with assms show ?thesis
    by simp
qed

lemma distance_toNum:
  "distance (toNum p) (toNum q) =
     (of_int (\<bar>cx p - cx q\<bar> + \<bar>cy p - cy q\<bar> + \<bar>cz p - cz q\<bar>) / 2 :: 'a::linordered_field)"
proof -
  have "\<And>u v :: int. \<bar>of_int u - of_int v :: 'a\<bar> = of_int \<bar>u - v\<bar>"
    by (simp flip: of_int_diff)
  then show ?thesis
    by (simp add: distance_def toNum_def)
qed

lemma distance_cube_eq:
  fixes p q :: "int CubeCoord"
  assumes "cx p + cy p + cz p = 0" and "cx q + cy q + cz q = 0"
  shows "distance (toNum p) (toNum q) =
     (of_int ((\<bar>cx p - cx q\<bar> + \<bar>cy p - cy q\<bar> + \<bar>cz p - cz q\<bar>) div 2) :: 'a::linordered_field)"
proof -
  let ?s = "\<bar>cx p - cx q\<bar> + \<bar>cy p - cy q\<bar> + \<bar>cz p - cz q\<bar>"
  from assms have "(cx p - cx q) + (cy p - cy q) + (cz p - cz q) = 0"
    by arith
  then have "even ?s"
    by (rule abs_sum3_even)
  then obtain k where k: "?s = 2 * k"
    by (elim evenE)
  show ?thesis
    unfolding distance_toNum k by simp
qed

text \<open>
  C6.  For all coordinates, fractional ones included, \<open>distance a b\<close> is
  (|\<Delta>x| + |\<Delta>y| + |\<Delta>z|) / 2, is symmetric, is zero exactly when \<open>a = b\<close>, and satisfies
  the triangle inequality.  For integer cube coordinates (x + y + z = 0 for both) it is
  an integer.
\<close>

theorem distance_metric:
  fixes a b c :: "'a::linordered_field CubeCoord" and p q :: "int CubeCoord"
  shows "distance a b = (\<bar>cx a - cx b\<bar> + \<bar>cy a - cy b\<bar> + \<bar>cz a - cz b\<bar>) / 2
    \<and> distance a b = distance b a
    \<and> (distance a b = 0 \<longleftrightarrow> a = b)
    \<and> distance a c \<le> distance a b + distance b c
    \<and> (cx p + cy p + cz p = 0 \<and> cx q + cy q + cz q = 0 \<longrightarrow>
         (distance (toNum p) (toNum q) :: 'a) \<in> \<int>)"
proof -
  have "cx p + cy p + cz p = 0 \<and> cx q + cy q + cz q = 0 \<longrightarrow>
         (distance (toNum p) (toNum q) :: 'a) \<in> \<int>"
    by (auto simp: distance_cube_eq)
  moreover have "distance a b = (\<bar>cx a - cx b\<bar> + \<bar>cy a - cy b\<bar> + \<bar>cz a - cz b\<bar>) / 2"
    by (simp add: distance_def)
  moreover note distance_sym [of a b] distance_zero_iff [of a b] distance_triangle [of a c b]
  ultimately show ?thesis
    by blast
qed

theorem distance_metric_witness:
  "(let p = \<lparr>cx = 0, cy = 0, cz = 0\<rparr>; q = \<lparr>cx = 3, cy = - 2, cz = - 1\<rparr> :: int CubeCoord
    in cx p + cy p + cz p = 0 \<and> cx q + cy q + cz q = 0
       \<and> (distance (toNum p) (toNum q) :: rat) = 3
       \<and> (distance (toNum p) (toNum q) :: rat) \<in> \<int>)"
proof -
  let ?p = "\<lparr>cx = 0, cy = 0, cz = 0\<rparr> :: int CubeCoord"
  let ?q = "\<lparr>cx = 3, cy = - 2, cz = - 1\<rparr> :: int CubeCoord"
  have h: "cx ?p + cy ?p + cz ?p = 0 \<and> cx ?q + cy ?q + cz ?q = 0"
    by simp
  have v: "(distance (toNum ?p) (toNum ?q) :: rat) = 3"
    by (simp add: distance_def toNum_def)
  from h v distance_metric [of "toNum ?p :: rat CubeCoord" "toNum ?q" "toNum ?p" ?p ?q]
  show ?thesis
    unfolding Let_def by blast
qed

section \<open>Properties of the grid store\<close>

lemma newMap_simps:
  "newMap st es = (st', a) \<Longrightarrow> a = allocated st \<and> allocated st' = Suc (allocated st)
     \<and> maps st' = (maps st)(allocated st := es)"
  by (auto simp: newMap_def)

lemma getCell_setCell:
  assumes "setCell st grid c cell = (st', grid')"
  shows "getCell st' grid' c' = (if c' = c then Some (cell\<lparr>coord := c\<rparr>) else getCell st grid c')"
  using assms
  by (auto simp: setCell_def newMap_def mapSet_def getCell_def mapGet_def Let_def update_conv' hash_eq_iff)



lemma getCell_removeCell:
  assumes "removeCell st grid c = (st', grid')"
  shows "getCell st' grid' c' = (if c' = c then None else getCell st grid c')"
  using assms
  by (auto simp: removeCell_def newMap_def mapDelete_def getCell_def mapGet_def Let_def delete_conv' hash_eq_iff)


lemma removeCell_fresh:
  assumes "removeCell st grid c = (st', grid')"
  shows "cells grid' = allocated st \<and> allocated st' = Suc (allocated st)
    \<and> layout grid' = layout grid \<and> gridSize grid' = gridSize grid"
  using assms by (auto simp: removeCell_def newMap_def mapDelete_def Let_def)

lemma removeCell_absent:
  assumes "removeCell st grid c = (st', grid')" and "\<not> hasCell st grid c"
  shows "maps st' (cells grid') = maps st (cells grid)"
proof -
  from assms(2) have "hash c \<notin> fst ` set (maps st (cells grid))"
    by (simp add: hasCell_def mapHas_def)
  then have "AList.delete (hash c) (maps st (cells grid)) = maps st (cells grid)"
    by (rule delete_id)
  with assms(1) show ?thesis
    by (auto simp: removeCell_def newMap_def mapDelete_def Let_def)
qed

lemma getCell_None_iff: "getCell st grid c = None \<longleftrightarrow> \<not> hasCell st grid c"
  by (simp add: getCell_def hasCell_def mapGet_def mapHas_def map_of_eq_None_iff)


lemma getCell_updateCell:
  assumes "updateCell st grid c updater = (st', grid')"
  shows "getCell st' grid' c' =
    (if c' = c then map_option (\<lambda>cell. (updater cell)\<lparr>coord := c\<rparr>) (getCell st grid c)
     else getCell st grid c')"
proof (cases "getCell st grid c")
  case None
  with assms show ?thesis
    by (auto simp: updateCell_def)
next
  case (Some cell)
  with assms have "setCell st grid c (updater cell) = (st', grid')"
    by (simp add: updateCell_def)
  from getCell_setCell [OF this] Some show ?thesis
    by simp
qed



lemma setCellData_cases:
  assumes "setCellData st grid c entities = (st', grid')"
  shows "(st', grid') = (st, grid) \<and> (getCell st grid c = None \<or> entities = [])
    \<or> (\<exists>cell. getCell st grid c = Some cell \<and> entities \<noteq> []
          \<and> setCell st grid c (cell\<lparr>data := foldl mergeEntity (data cell) entities\<rparr>) = (st', grid'))"
  using assms by (auto simp: setCellData_def Let_def split: option.splits if_splits)






lemma mapCells_loop_keys:
  "fst ` set (maps (foldl (\<lambda>s (key, cell). mapSet s n key (fn cell)) st es) n)
     = fst ` set (maps st n) \<union> fst ` set es"
proof (induction es arbitrary: st)
  case Nil
  show ?case by simp
next
  case (Cons e es)
  obtain k v where e: "e = (k, v)" by (cases e)
  have "fst ` set (maps (mapSet st n k (fn v)) n) = insert k (fst ` set (maps st n))"
    using dom_update [of k "fn v" "maps st n"] by (simp add: mapSet_def dom_map_of_conv_image_fst)
  with Cons [of "mapSet st n k (fn v)"] show ?case
    by (auto simp: e)
qed



lemma mapCells_hasCell:
  assumes "mapCells st grid fn = (st', grid')"
  shows "hasCell st' grid' c \<longleftrightarrow> hasCell st grid c"
proof -
  let ?st1 = "st\<lparr>maps := (maps st)(allocated st := []), allocated := Suc (allocated st)\<rparr>"
  from assms have g: "cells grid' = allocated st"
    and s: "st' = foldl (\<lambda>s (key, cell). mapSet s (allocated st) key (fn cell)) ?st1 (maps st (cells grid))"
    by (auto simp: mapCells_def newMap_def Let_def)
  show ?thesis
    unfolding hasCell_def mapHas_def Let_def g s mapCells_loop_keys by simp
qed

lemma frame_getCell:
  assumes "\<And>a. a < allocated st \<Longrightarrow> maps st' a = maps st a" and "gridAllocated st grid"
  shows "getCell st' grid c = getCell st grid c"
  using assms by (simp add: getCell_def mapGet_def gridAllocated_def)


lemma set_update_subset: "set (AList.update k v al) \<subseteq> insert (k, v) (set al)"
  by (induction al) auto

lemma set_delete_subset: "set (AList.delete k al) \<subseteq> set al"
  by (induction al) auto





lemma hexGrid_eq: "hexGrid = \<lparr>cells = 0, layout = ''pointy'', gridSize = HexSize 1\<rparr>"
  by (simp add: hexGrid_def createHexGrid_def newMap_def emptyStore_def Let_def)

lemma hexStore_allocated: "allocated hexStore = 1"
  by (simp add: hexStore_def createHexGrid_def newMap_def emptyStore_def Let_def mapSet_def upto.simps)

lemma hexStore_maps: "maps hexStore 0 =
  [(''-1,0,1'', \<lparr>coord = \<lparr>cx = - 1, cy = 0, cz = 1\<rparr>, passable = True, data = []\<rparr>),
   (''-1,1,0'', \<lparr>coord = \<lparr>cx = - 1, cy = 1, cz = 0\<rparr>, passable = True, data = []\<rparr>),
   (''0,-1,1'', \<lparr>coord = \<lparr>cx = 0, cy = - 1, cz = 1\<rparr>, passable = True, data = []\<rparr>),
   (''0,0,0'', \<lparr>coord = \<lparr>cx = 0, cy = 0, cz = 0\<rparr>, passable = True, data = []\<rparr>),
   (''0,1,-1'', \<lparr>coord = \<lparr>cx = 0, cy = 1, cz = - 1\<rparr>, passable = True, data = []\<rparr>),
   (''1,-1,0'', \<lparr>coord = \<lparr>cx = 1, cy = - 1, cz = 0\<rparr>, passable = True, data = []\<rparr>),
   (''1,0,-1'', \<lparr>coord = \<lparr>cx = 1, cy = 0, cz = - 1\<rparr>, passable = True, data = []\<rparr>)]"
  by (simp add: hexStore_def createHexGrid_def newMap_def emptyStore_def Let_def mapSet_def upto.simps hash_eval)


lemma hexGrid_keys: "fst ` set (maps hexStore (cells hexGrid)) =
  {''-1,0,1'', ''-1,1,0'', ''0,-1,1'', ''0,0,0'', ''0,1,-1'', ''1,-1,0'', ''1,0,-1''}"
  by (simp add: hexGrid_eq hexStore_maps)

text \<open>
  C7.  For a coordinate absent from the grid, \<open>getCell\<close> returns null, \<open>updateCell\<close> and
  \<open>setCellData\<close> return the grid they were given (and touch no Map), and \<open>removeCell\<close>
  returns a grid with the same layout and size whose Map has the same entries.
\<close>

theorem absent_coordinate_noop:
  assumes "\<not> hasCell st grid c"
  shows "getCell st grid c = None
    \<and> updateCell st grid c updater = (st, grid)
    \<and> setCellData st grid c entities = (st, grid)
    \<and> (case removeCell st grid c of (st', grid') \<Rightarrow>
          maps st' (cells grid') = maps st (cells grid)
          \<and> layout grid' = layout grid \<and> gridSize grid' = gridSize grid
          \<and> (\<forall>c'. getCell st' grid' c' = getCell st grid c'))"
proof -
  from assms have n: "getCell st grid c = None"
    by (simp add: getCell_None_iff)
  obtain st' grid' where r: "removeCell st grid c = (st', grid')"
    by (cases "removeCell st grid c")
  have "\<forall>c'. getCell st' grid' c' = getCell st grid c'"
    using getCell_removeCell [OF r] n by auto
  with n r removeCell_absent [OF r assms] removeCell_fresh [OF r] show ?thesis
    by (simp add: updateCell_def setCellData_def)
qed

theorem absent_coordinate_noop_witness:
  "\<not> hasCell hexStore hexGrid \<lparr>cx = 2, cy = - 1, cz = - 1\<rparr>
   \<and> getCell hexStore hexGrid \<lparr>cx = 2, cy = - 1, cz = - 1\<rparr> = None
   \<and> setPassable hexStore hexGrid \<lparr>cx = 2, cy = - 1, cz = - 1\<rparr> False = (hexStore, hexGrid)
   \<and> setCellData hexStore hexGrid \<lparr>cx = 2, cy = - 1, cz = - 1\<rparr> [Some [(''hp'', VNum 3)]] = (hexStore, hexGrid)
   \<and> maps (fst (removeCell hexStore hexGrid \<lparr>cx = 2, cy = - 1, cz = - 1\<rparr>))
         (cells (snd (removeCell hexStore hexGrid \<lparr>cx = 2, cy = - 1, cz = - 1\<rparr>)))
       = maps hexStore (cells hexGrid)"
proof -
  let ?c = "\<lparr>cx = 2, cy = - 1, cz = - 1\<rparr> :: int CubeCoord"
  have h: "\<not> hasCell hexStore hexGrid ?c"
    by (simp add: hasCell_def mapHas_def hexGrid_keys hash_eval)
  from absent_coordinate_noop [OF h, of "\<lambda>cell. cell\<lparr>passable := False\<rparr>" "[Some [(''hp'', VNum 3)]]"] h
  show ?thesis
    by (auto simp: setPassable_def split: prod.splits)
qed

text \<open>
  C10.  \<open>setCell\<close> stores the cell under the key \<open>hash c\<close> with its \<open>coord\<close> field set to
  \<open>c\<close>, whatever \<open>coord\<close> the supplied cell carries; \<open>getCell\<close> at \<open>c\<close> in the returned
  grid yields that cell.  The same holds for what \<open>updateCell\<close>, \<open>setPassable\<close> and
  \<open>setCellData\<close> write, and all four keep the property that every key of the Map is the
  hash of the coordinate stored in its cell.
\<close>

theorem setCell_forces_coord:
  "(case setCell st grid c cell of (st', grid') \<Rightarrow>
      mapGet st' (cells grid') (hash c) = Some (cell\<lparr>coord := c\<rparr>)
      \<and> getCell st' grid' c = Some (cell\<lparr>coord := c\<rparr>)
      \<and> (\<forall>stored. getCell st' grid' c = Some stored \<longrightarrow> hash (coord stored) = hash c)
      \<and> (keysMatch st grid \<longrightarrow> keysMatch st' grid'))
   \<and> (case updateCell st grid c updater of (st', grid') \<Rightarrow>
      (\<forall>old. getCell st grid c = Some old \<longrightarrow> getCell st' grid' c = Some ((updater old)\<lparr>coord := c\<rparr>))
      \<and> (keysMatch st grid \<longrightarrow> keysMatch st' grid'))
   \<and> (case setPassable st grid c p of (st', grid') \<Rightarrow>
      (\<forall>old. getCell st grid c = Some old \<longrightarrow> getCell st' grid' c = Some (old\<lparr>passable := p, coord := c\<rparr>))
      \<and> (keysMatch st grid \<longrightarrow> keysMatch st' grid'))
   \<and> (case setCellData st grid c entities of (st', grid') \<Rightarrow>
      (\<forall>old. getCell st grid c = Some old \<and> entities \<noteq> [] \<longrightarrow>
          getCell st' grid' c = Some (old\<lparr>data := foldl mergeEntity (data old) entities, coord := c\<rparr>))
      \<and> (keysMatch st grid \<longrightarrow> keysMatch st' grid'))"
proof -
  have km: "keysMatch st' grid'" if "setCell st grid c v = (st', grid')" and "keysMatch st grid"
    for st' grid' v
  proof -
    from that(1) have m: "maps st' (cells grid') = AList.update (hash c) (v\<lparr>coord := c\<rparr>) (maps st (cells grid))"
      by (auto simp: setCell_def newMap_def mapSet_def Let_def)
    have "set (AList.update (hash c) (v\<lparr>coord := c\<rparr>) (maps st (cells grid)))
        \<subseteq> insert (hash c, v\<lparr>coord := c\<rparr>) (set (maps st (cells grid)))"
      by (rule set_update_subset)
    with that(2) show ?thesis
      unfolding keysMatch_def m by auto
  qed
  have a: "case setCell st grid c cell of (st', grid') \<Rightarrow>
      mapGet st' (cells grid') (hash c) = Some (cell\<lparr>coord := c\<rparr>)
      \<and> getCell st' grid' c = Some (cell\<lparr>coord := c\<rparr>)
      \<and> (\<forall>stored. getCell st' grid' c = Some stored \<longrightarrow> hash (coord stored) = hash c)
      \<and> (keysMatch st grid \<longrightarrow> keysMatch st' grid')"
  proof -
    obtain st' grid' where r: "setCell st grid c cell = (st', grid')"
      by (cases "setCell st grid c cell")
    from getCell_setCell [OF r, of c] km [OF r] r show ?thesis
      by (auto simp: getCell_def)
  qed
  have u: "(\<forall>old. getCell st grid c = Some old \<longrightarrow> getCell st' grid' c = Some ((f old)\<lparr>coord := c\<rparr>))
      \<and> (keysMatch st grid \<longrightarrow> keysMatch st' grid')"
    if r: "updateCell st grid c f = (st', grid')" for st' grid' f
  proof (cases "getCell st grid c")
    case None
    with r show ?thesis
      by (auto simp: updateCell_def)
  next
    case (Some old)
    with r have "setCell st grid c (f old) = (st', grid')"
      by (simp add: updateCell_def)
    from km [OF this] getCell_updateCell [OF r, of c] Some show ?thesis
      by auto
  qed
  have b: "case updateCell st grid c updater of (st', grid') \<Rightarrow>
      (\<forall>old. getCell st grid c = Some old \<longrightarrow> getCell st' grid' c = Some ((updater old)\<lparr>coord := c\<rparr>))
      \<and> (keysMatch st grid \<longrightarrow> keysMatch st' grid')"
    using u by (cases "updateCell st grid c updater") blast
  have p: "case setPassable st grid c p of (st', grid') \<Rightarrow>
      (\<forall>old. getCell st grid c = Some old \<longrightarrow> getCell st' grid' c = Some (old\<lparr>passable := p, coord := c\<rparr>))
      \<and> (keysMatch st grid \<longrightarrow> keysMatch st' grid')"
    unfolding setPassable_def using u [where f = "\<lambda>cell. cell\<lparr>passable := p\<rparr>"]
    by (cases "updateCell st grid c (\<lambda>cell. cell\<lparr>passable := p\<rparr>)") auto
  have d: "case setCellData st grid c entities of (st', grid') \<Rightarrow>
      (\<forall>old. getCell st grid c = Some old \<and> entities \<noteq> [] \<longrightarrow>
          getCell st' grid' c = Some (old\<lparr>data := foldl mergeEntity (data old) entities, coord := c\<rparr>))
      \<and> (keysMatch st grid \<longrightarrow> keysMatch st' grid')"
  proof -
    obtain st' grid' where r: "setCellData st grid c entities = (st', grid')"
      by (cases "setCellData st grid c entities")
    from setCellData_cases [OF r] show ?thesis
      unfolding r by (auto simp: getCell_setCell dest: km)
  qed
  from a b p d show ?thesis
    by blast
qed


lemma hexGrid_keysMatch: "keysMatch hexStore hexGrid"
  by (simp add: keysMatch_def hexGrid_eq hexStore_maps hash_eval)

theorem setCell_forces_coord_witness:
  "keysMatch hexStore hexGrid
   \<and> (let c = \<lparr>cx = 0, cy = 0, cz = 0\<rparr>;
           cell = \<lparr>coord = \<lparr>cx = 5, cy = 5, cz = 5\<rparr>, passable = False, data = []\<rparr>;
           r = setCell hexStore hexGrid c cell
       in getCell (fst r) (snd r) c = Some \<lparr>coord = c, passable = False, data = []\<rparr>
          \<and> keysMatch (fst r) (snd r))
   \<and> (let c = \<lparr>cx = 1, cy = - 1, cz = 0\<rparr>;
           r = setPassable hexStore hexGrid c False
       in getCell hexStore hexGrid c = Some \<lparr>coord = c, passable = True, data = []\<rparr>
          \<and> getCell (fst r) (snd r) c = Some \<lparr>coord = c, passable = False, data = []\<rparr>
          \<and> keysMatch (fst r) (snd r))"
proof -
  let ?c = "\<lparr>cx = 0, cy = 0, cz = 0\<rparr> :: int CubeCoord"
  let ?d = "\<lparr>cx = 1, cy = - 1, cz = 0\<rparr> :: int CubeCoord"
  let ?cell = "\<lparr>coord = \<lparr>cx = 5, cy = 5, cz = 5\<rparr>, passable = False, data = []\<rparr>"
  note km = hexGrid_keysMatch
  have g: "getCell hexStore hexGrid ?d = Some \<lparr>coord = ?d, passable = True, data = []\<rparr>"
    by (simp add: getCell_def mapGet_def hexGrid_eq hexStore_maps hash_eval)
  from setCell_forces_coord [where st = hexStore and grid = hexGrid and c = ?c and cell = ?cell] km
  have 1: "getCell (fst (setCell hexStore hexGrid ?c ?cell)) (snd (setCell hexStore hexGrid ?c ?cell)) ?c
        = Some \<lparr>coord = ?c, passable = False, data = []\<rparr>
      \<and> keysMatch (fst (setCell hexStore hexGrid ?c ?cell)) (snd (setCell hexStore hexGrid ?c ?cell))"
    by (simp add: case_prod_beta)
  from setCell_forces_coord [where st = hexStore and grid = hexGrid and c = ?d and p = False] km g
  have 2: "getCell (fst (setPassable hexStore hexGrid ?d False)) (snd (setPassable hexStore hexGrid ?d False)) ?d
        = Some \<lparr>coord = ?d, passable = False, data = []\<rparr>
      \<and> keysMatch (fst (setPassable hexStore hexGrid ?d False)) (snd (setPassable hexStore hexGrid ?d False))"
    by (simp add: case_prod_beta)
  from km g 1 2 show ?thesis
    unfolding Let_def by blast
qed




lemma wallGrid_eq: "wallGrid = \<lparr>cells = 1, layout = ''pointy'', gridSize = HexSize 1\<rparr>"
  by (simp add: wallGrid_def setPassable_def updateCell_def getCell_def mapGet_def setCell_def
      newMap_def mapSet_def Let_def hexGrid_eq hexStore_maps hexStore_allocated hash_eval)

lemma wallStore_maps: "maps wallStore (cells wallGrid) =
  [(''-1,0,1'', \<lparr>coord = \<lparr>cx = - 1, cy = 0, cz = 1\<rparr>, passable = True, data = []\<rparr>),
   (''-1,1,0'', \<lparr>coord = \<lparr>cx = - 1, cy = 1, cz = 0\<rparr>, passable = True, data = []\<rparr>),
   (''0,-1,1'', \<lparr>coord = \<lparr>cx = 0, cy = - 1, cz = 1\<rparr>, passable = True, data = []\<rparr>),
   (''0,0,0'', \<lparr>coord = \<lparr>cx = 0, cy = 0, cz = 0\<rparr>, passable = True, data = []\<rparr>),
   (''0,1,-1'', \<lparr>coord = \<lparr>cx = 0, cy = 1, cz = - 1\<rparr>, passable = True, data = []\<rparr>),
   (''1,-1,0'', \<lparr>coord = \<lparr>cx = 1, cy = - 1, cz = 0\<rparr>, passable = False, data = []\<rparr>),
   (''1,0,-1'', \<lparr>coord = \<lparr>cx = 1, cy = 0, cz = - 1\<rparr>, passable = True, data = []\<rparr>)]"
  by (simp add: wallGrid_eq wallStore_def setPassable_def updateCell_def getCell_def mapGet_def setCell_def
      newMap_def mapSet_def Let_def hexGrid_eq hexStore_maps hexStore_allocated hash_eval)

lemma wall_neighbors_origin:
  "getNeighbors wallStore wallGrid \<lparr>cx = 0, cy = 0, cz = 0\<rparr> True =
    [\<lparr>cx = 1, cy = 0, cz = - 1\<rparr>, \<lparr>cx = 0, cy = 1, cz = - 1\<rparr>, \<lparr>cx = - 1, cy = 1, cz = 0\<rparr>,
     \<lparr>cx = - 1, cy = 0, cz = 1\<rparr>, \<lparr>cx = 0, cy = - 1, cz = 1\<rparr>]"
  by (simp add: getNeighbors_def getDirections_def DIRECTIONS_def add_def hasCell_def mapHas_def
      isPassable_def getCell_def mapGet_def wallStore_maps hash_eval)

section \<open>Properties of the range queries\<close>

lemma toNum_inj: "(toNum a :: 'a::linordered_field CubeCoord) = toNum b \<longleftrightarrow> a = b"
  by (auto simp: toNum_def intro: CubeCoord.equality)

lemma distance_toNum_zero_iff:
  "(distance (toNum a) (toNum b) :: 'a::linordered_field) = 0 \<longleftrightarrow> a = b"
  by (simp add: distance_zero_iff toNum_inj)

lemma filter_key_distinct:
  "distinct (map fst al) \<Longrightarrow>
    filter (\<lambda>(k, v). k = key) al = (case map_of al key of None \<Rightarrow> [] | Some v \<Rightarrow> [(key, v)])"
proof (induction al)
  case Nil
  show ?case by simp
next
  case (Cons e al)
  obtain k v where e: "e = (k, v)" by (cases e)
  show ?case
  proof (cases "k = key")
    case True
    with Cons.prems e have "key \<notin> fst ` set al"
      by simp
    then have "filter (\<lambda>(k, v). k = key) al = []"
      by (force simp: filter_empty_conv)
    with True e show ?thesis
      by simp
  next
    case False
    with Cons e show ?thesis
      by simp
  qed
qed

lemma getRing_zero:
  assumes "keysMatch st grid" and "keysDistinct st grid"
  shows "getRing st grid center 0 = (if hasCell st grid center then [center] else [])"
proof -
  let ?al = "maps st (cells grid)"
  have "filter (\<lambda>(key, cell). distance (toNum center) (toNum (coord cell)) = (0::rat)) ?al
      = filter (\<lambda>(key, cell). key = hash center) ?al"
  proof (rule filter_cong [OF refl])
    fix e assume "e \<in> set ?al"
    with assms(1) have "fst e = hash (coord (snd e))"
      by (auto simp: keysMatch_def)
    then show "(case e of (key, cell) \<Rightarrow> distance (toNum center) (toNum (coord cell)) = (0::rat))
        = (case e of (key, cell) \<Rightarrow> key = hash center)"
      by (cases e) (auto simp: distance_toNum_zero_iff hash_eq_iff)
  qed
  also have "\<dots> = (case map_of ?al (hash center) of None \<Rightarrow> [] | Some v \<Rightarrow> [(hash center, v)])"
    using assms(2) by (intro filter_key_distinct) (simp add: keysDistinct_def)
  finally have f: "filter (\<lambda>(key, cell). distance (toNum center) (toNum (coord cell)) = (0::rat)) ?al
      = (case map_of ?al (hash center) of None \<Rightarrow> [] | Some v \<Rightarrow> [(hash center, v)])" .
  show ?thesis
  proof (cases "map_of ?al (hash center)")
    case None
    then have "\<not> hasCell st grid center"
      by (simp add: hasCell_def mapHas_def map_of_eq_None_iff)
    with None f show ?thesis
      by (simp add: getRing_def)
  next
    case (Some v)
    then have m: "(hash center, v) \<in> set ?al"
      by (rule map_of_SomeD)
    with assms(1) have "hash center = hash (coord v)"
      by (auto simp: keysMatch_def)
    then have c: "coord v = center"
      by (simp add: hash_eq_iff)
    from m have "hasCell st grid center"
      by (force simp: hasCell_def mapHas_def)
    with Some f c show ?thesis
      by (simp add: getRing_def)
  qed
qed

lemma spiralLoop_eq:
  "spiralLoop st grid center maxRadius radius results =
     results @ concat (map (\<lambda>r. getRing st grid center (of_int r)) [radius..maxRadius])"
proof (induction st grid center maxRadius radius results rule: spiralLoop.induct)
  case (1 st grid center maxRadius radius results)
  show ?case
  proof (cases "radius \<le> maxRadius")
    case True
    then have u: "[radius..maxRadius] = radius # [radius + 1..maxRadius]"
      by (rule upto_rec1)
    from True 1 show ?thesis
      by (subst spiralLoop.simps) (simp add: u Let_def)
  next
    case False
    then show ?thesis
      by (subst spiralLoop.simps) simp
  qed
qed

text \<open>
  C8 (as the code has it).  \<open>getRing\<close> scans the cells of the grid, so at radius 0 it
  returns \<open>[center]\<close> when the center is a cell of the (well-formed) grid and the empty
  list when it is not.  \<open>getSpiral\<close> is \<open>[center]\<close> followed by the rings of radius
  1 .. maxRadius in increasing order, for every grid and every maxRadius.
\<close>

theorem ring_zero_and_spiral:
  "(keysMatch st grid \<and> keysDistinct st grid \<longrightarrow>
       getRing st grid center 0 = (if hasCell st grid center then [center] else []))
   \<and> getSpiral st grid center maxRadius =
       [center] @ concat (map (\<lambda>r. getRing st grid center (of_int r)) [1..maxRadius])"
  using getRing_zero [of st grid center] by (simp add: getSpiral_def spiralLoop_eq)

lemma hexGrid_keysDistinct: "keysDistinct hexStore hexGrid"
  by (simp add: keysDistinct_def hexGrid_eq hexStore_maps)

theorem ring_zero_and_spiral_witness:
  "keysMatch hexStore hexGrid \<and> keysDistinct hexStore hexGrid
   \<and> hasCell hexStore hexGrid \<lparr>cx = 0, cy = 0, cz = 0\<rparr>
   \<and> getRing hexStore hexGrid \<lparr>cx = 0, cy = 0, cz = 0\<rparr> 0 = [\<lparr>cx = 0, cy = 0, cz = 0\<rparr>]"
proof -
  let ?c = "\<lparr>cx = 0, cy = 0, cz = 0\<rparr> :: int CubeCoord"
  have h: "hasCell hexStore hexGrid ?c"
    by (simp add: hasCell_def mapHas_def hexGrid_keys hash_eval)
  from ring_zero_and_spiral [of hexStore hexGrid ?c 0] hexGrid_keysMatch hexGrid_keysDistinct h
  show ?thesis
    by simp
qed

text \<open>
  C8 as stated fails for a center that is not a cell of the grid: in the hexagon of
  radius 1, the ring of radius 0 around (2, -1, -1) is empty.
\<close>

theorem ring_zero_counterexample:
  "getRing hexStore hexGrid \<lparr>cx = 2, cy = - 1, cz = - 1\<rparr> 0 = []
   \<and> getRing hexStore hexGrid \<lparr>cx = 2, cy = - 1, cz = - 1\<rparr> 0 \<noteq> [\<lparr>cx = 2, cy = - 1, cz = - 1\<rparr>]"
  by (simp add: getRing_def hexGrid_eq hexStore_maps distance_def toNum_def)

section \<open>Properties of the flood fill\<close>

lemma hopsWithin_Suc:
  "hopsWithin st grid start (Suc k) = hopsWithin st grid start k \<union> hopLayer st grid start k"
  by (auto simp: hopsWithin_def hopLayer_def less_Suc_eq)

lemma hopLayer_Suc:
  "hopLayer st grid start (Suc k) = stepRel st grid `` hopLayer st grid start k - hopsWithin st grid start (Suc k)"
proof (intro equalityI subsetI)
  fix c assume c: "c \<in> hopLayer st grid start (Suc k)"
  then obtain b where b: "(start, b) \<in> stepRel st grid ^^ k" and s: "(b, c) \<in> stepRel st grid"
    by (auto simp: hopLayer_def)
  have "b \<notin> hopsWithin st grid start k"
  proof
    assume "b \<in> hopsWithin st grid start k"
    then obtain n where n: "n < k" "(start, b) \<in> stepRel st grid ^^ n"
      by (auto simp: hopsWithin_def)
    with s have "(start, c) \<in> stepRel st grid ^^ Suc n"
      by auto
    with n(1) have "c \<in> hopsWithin st grid start (Suc k)"
      unfolding hopsWithin_def by blast
    with c show False
      by (simp add: hopLayer_def)
  qed
  with b have "b \<in> hopLayer st grid start k"
    by (simp add: hopLayer_def)
  with s c show "c \<in> stepRel st grid `` hopLayer st grid start k - hopsWithin st grid start (Suc k)"
    by (auto simp: hopLayer_def)
next
  fix c assume "c \<in> stepRel st grid `` hopLayer st grid start k - hopsWithin st grid start (Suc k)"
  then obtain b where "b \<in> hopLayer st grid start k" "(b, c) \<in> stepRel st grid"
    and n: "c \<notin> hopsWithin st grid start (Suc k)"
    by auto
  then have "(start, c) \<in> stepRel st grid ^^ Suc k"
    by (auto simp: hopLayer_def)
  with n show "c \<in> hopLayer st grid start (Suc k)"
    by (simp add: hopLayer_def)
qed

lemma hopLayer_0: "hopLayer st grid start 0 = {start}"
  by (auto simp: hopLayer_def hopsWithin_def)

lemma hopsWithin_1: "hopsWithin st grid start (Suc 0) = {start}"
  by (auto simp: hopsWithin_def)

lemma hash_image_mem: "hash c \<in> hash ` V \<longleftrightarrow> c \<in> V"
  by (auto simp: hash_eq_iff)

lemma visitNeighbor_fold:
  assumes "foldl visitNeighbor (hash ` V, f) ns = (v', f')"
  shows "v' = hash ` (V \<union> set ns) \<and> set f' = set f \<union> (set ns - V)"
  using assms
proof (induction ns arbitrary: V f)
  case Nil
  then show ?case by simp
next
  case (Cons n ns)
  show ?case
  proof (cases "n \<in> V")
    case True
    then have "visitNeighbor (hash ` V, f) n = (hash ` V, f)"
      by (simp add: visitNeighbor_def hash_image_mem)
    with Cons.prems have "foldl visitNeighbor (hash ` V, f) ns = (v', f')"
      by simp
    from Cons.IH [OF this] True show ?thesis
      by (auto simp: insert_absorb)
  next
    case False
    then have "visitNeighbor (hash ` V, f) n = (hash ` (insert n V), f @ [n])"
      by (simp add: visitNeighbor_def hash_image_mem)
    with Cons.prems have "foldl visitNeighbor (hash ` (insert n V), f @ [n]) ns = (v', f')"
      by simp
    from Cons.IH [OF this] False show ?thesis
      by auto
  qed
qed

lemma expandCoord_fold:
  assumes "foldl (expandCoord st grid) (hash ` V, f) cs = (v', f')"
  shows "v' = hash ` (V \<union> stepRel st grid `` set cs) \<and> set f' = set f \<union> (stepRel st grid `` set cs - V)"
  using assms
proof (induction cs arbitrary: V f)
  case Nil
  then show ?case by simp
next
  case (Cons c cs)
  obtain v1 f1 where e: "expandCoord st grid (hash ` V, f) c = (v1, f1)"
    by (cases "expandCoord st grid (hash ` V, f) c")
  let ?N = "set (getNeighbors st grid c True)"
  from e have "foldl visitNeighbor (hash ` V, f) (getNeighbors st grid c True) = (v1, f1)"
    by (simp add: expandCoord_def)
  from visitNeighbor_fold [OF this]
  have v1: "v1 = hash ` (V \<union> ?N)" and f1: "set f1 = set f \<union> (?N - V)"
    by simp_all
  from Cons.prems e have "foldl (expandCoord st grid) (hash ` (V \<union> ?N), f1) cs = (v', f')"
    by (simp add: v1)
  from Cons.IH [OF this]
  have v': "v' = hash ` (V \<union> ?N \<union> stepRel st grid `` set cs)"
    and f': "set f' = set f1 \<union> (stepRel st grid `` set cs - (V \<union> ?N))"
    by simp_all
  have N: "stepRel st grid `` set (c # cs) = ?N \<union> stepRel st grid `` set cs"
    by (auto simp: stepRel_def)
  show ?case
    unfolding N v' f' f1 by (auto simp: Un_assoc)
qed

lemma reachInv_step:
  assumes inv: "reachInv st grid start (Suc j) visited fringes"
    and f: "foldl (expandCoord st grid) (visited, []) (fringes ! j) = (visited', fringe)"
  shows "reachInv st grid start (Suc (Suc j)) visited' (fringes @ [fringe])"
proof -
  from inv have len: "length fringes = Suc j"
    and vis: "visited = hash ` hopsWithin st grid start (Suc j)"
    and lay: "\<And>i. i < Suc j \<Longrightarrow> set (fringes ! i) = hopLayer st grid start i"
    by (simp_all add: reachInv_def)
  from f have "foldl (expandCoord st grid) (hash ` hopsWithin st grid start (Suc j), []) (fringes ! j)
      = (visited', fringe)"
    by (simp add: vis)
  from expandCoord_fold [OF this] lay [of j]
  have v': "visited' = hash ` (hopsWithin st grid start (Suc j) \<union> stepRel st grid `` hopLayer st grid start j)"
    and fr: "set fringe = stepRel st grid `` hopLayer st grid start j - hopsWithin st grid start (Suc j)"
    by simp_all
  from fr have fr': "set fringe = hopLayer st grid start (Suc j)"
    by (simp add: hopLayer_Suc)
  have "hopsWithin st grid start (Suc j) \<union> stepRel st grid `` hopLayer st grid start j
      = hopsWithin st grid start (Suc (Suc j))"
    unfolding hopsWithin_Suc [of st grid start "Suc j"] hopLayer_Suc [of st grid start j]
    by auto
  with v' have v'': "visited' = hash ` hopsWithin st grid start (Suc (Suc j))"
    by simp
  have "\<forall>i<Suc (Suc j). set ((fringes @ [fringe]) ! i) = hopLayer st grid start i"
  proof (intro allI impI)
    fix i assume "i < Suc (Suc j)"
    then consider "i < Suc j" | "i = Suc j"
      by linarith
    then show "set ((fringes @ [fringe]) ! i) = hopLayer st grid start i"
    proof cases
      case 1
      with len lay [OF 1] show ?thesis
        by (simp add: nth_append)
    next
      case 2
      with len fr' show ?thesis
        by (simp add: nth_append)
    qed
  qed
  with len v'' show ?thesis
    by (simp add: reachInv_def)
qed

lemma reachLoop_inv:
  assumes "1 \<le> k" and "k \<le> maxDistance + 1"
    and "reachInv st grid start (nat k) visited fringes"
  shows "\<exists>more visited'. reachLoop st grid maxDistance k visited fringes = fringes @ more
    \<and> reachInv st grid start (nat (maxDistance + 1)) visited' (fringes @ more)"
  using assms
proof (induction st grid maxDistance k visited fringes rule: reachLoop.induct)
  case (1 st grid maxDistance k visited fringes)
  show ?case
  proof (cases "k \<le> maxDistance")
    case False
    with "1.prems" have "k = maxDistance + 1"
      by simp
    with False "1.prems"(3) show ?thesis
      by (subst reachLoop.simps) auto
  next
    case True
    obtain visited' fringe where
      f: "foldl (expandCoord st grid) (visited, []) (fringes ! nat (k - 1)) = (visited', fringe)"
      by (cases "foldl (expandCoord st grid) (visited, []) (fringes ! nat (k - 1))")
    from "1.prems"(1) have k: "nat k = Suc (nat (k - 1))" "nat (k + 1) = Suc (Suc (nat (k - 1)))"
      by simp_all
    from "1.prems"(3) have "reachInv st grid start (Suc (nat (k - 1))) visited fringes"
      by (simp add: k)
    from reachInv_step [OF this f]
    have inv': "reachInv st grid start (nat (k + 1)) visited' (fringes @ [fringe])"
      by (simp add: k)
    from "1.prems"(1) True have b: "1 \<le> k + 1" "k + 1 \<le> maxDistance + 1"
      by simp_all
    from "1.IH" [OF True f [symmetric] refl b inv']
    obtain more v'' where
      "reachLoop st grid maxDistance (k + 1) visited' (fringes @ [fringe]) = (fringes @ [fringe]) @ more"
      "reachInv st grid start (nat (maxDistance + 1)) v'' ((fringes @ [fringe]) @ more)"
      by blast
    with True f show ?thesis
      by (subst reachLoop.simps) auto
  qed
qed

lemma reachInv_init: "reachInv st grid start (Suc 0) {hash start} [[start]]"
  by (simp add: reachInv_def hopsWithin_1 hopLayer_0)

lemma concat_layers:
  assumes "\<forall>i<length fs. set (fs ! i) = L i"
  shows "set (concat fs) = (\<Union>i<length fs. L i)"
proof -
  have "set fs = (\<lambda>i. fs ! i) ` {..<length fs}"
    by (auto simp: in_set_conv_nth)
  then have "set (concat fs) = (\<Union>i<length fs. set (fs ! i))"
    by simp
  with assms show ?thesis
    by auto
qed

lemma hopsWithin_Union: "(\<Union>i<m. hopLayer st grid start i) = hopsWithin st grid start m"
proof (induction m)
  case 0
  show ?case by (simp add: hopsWithin_def)
next
  case (Suc m)
  then show ?case
    by (simp add: lessThan_Suc hopsWithin_Suc Un_commute)
qed

text \<open>
  C2.  For a budget \<open>d \<ge> 0\<close>, \<open>getReachable\<close> is the concatenation of \<open>d + 1\<close> layers, the
  layer of index \<open>i\<close> holding exactly the coordinates whose shortest passable hop count
  from \<open>start\<close> is \<open>i\<close>; so the result begins with \<open>start\<close> and contains exactly the
  coordinates that some walk of at most \<open>d\<close> passable hops reaches.
\<close>

theorem getReachable_layers:
  assumes "0 \<le> d"
  shows "set (getReachable st grid start d) = {c. \<exists>n. int n \<le> d \<and> (start, c) \<in> stepRel st grid ^^ n}
    \<and> (\<exists>fringes. getReachable st grid start d = concat fringes
          \<and> length fringes = nat d + 1
          \<and> (\<forall>i<length fringes. set (fringes ! i) = hopLayer st grid start i))
    \<and> (\<exists>others. getReachable st grid start d = start # others)"
proof -
  let ?fs = "reachLoop st grid d 1 {hash start} [[start]]"
  from assms have "(1::int) \<le> 1" "1 \<le> d + 1" "reachInv st grid start (nat 1) {hash start} [[start]]"
    by (simp_all add: reachInv_init)
  from reachLoop_inv [OF this]
  obtain more v where m: "?fs = [[start]] @ more" and inv: "reachInv st grid start (nat (d + 1)) v ?fs"
    by auto
  from assms have nd: "nat (d + 1) = nat d + 1"
    by simp
  from inv have len: "length ?fs = nat d + 1"
    and lay: "\<forall>i<length ?fs. set (?fs ! i) = hopLayer st grid start i"
    by (simp_all add: reachInv_def nd)
  have g: "getReachable st grid start d = concat ?fs"
    by (simp add: getReachable_def)
  have "set (concat ?fs) = hopsWithin st grid start (nat d + 1)"
    using concat_layers [OF lay] by (simp add: len hopsWithin_Union)
  also have "\<dots> = {c. \<exists>n. int n \<le> d \<and> (start, c) \<in> stepRel st grid ^^ n}"
  proof -
    have "n < nat d + 1 \<longleftrightarrow> int n \<le> d" for n
      using assms by linarith
    then show ?thesis
      by (simp add: hopsWithin_def)
  qed
  finally have 1: "set (getReachable st grid start d) = {c. \<exists>n. int n \<le> d \<and> (start, c) \<in> stepRel st grid ^^ n}"
    by (simp add: g)
  from g len lay have 2: "\<exists>fringes. getReachable st grid start d = concat fringes
          \<and> length fringes = nat d + 1
          \<and> (\<forall>i<length fringes. set (fringes ! i) = hopLayer st grid start i)"
    by blast
  from g m have 3: "\<exists>others. getReachable st grid start d = start # others"
    by simp
  from 1 2 3 show ?thesis
    by blast
qed

lemma wall_reachable_1:
  "getReachable wallStore wallGrid \<lparr>cx = 0, cy = 0, cz = 0\<rparr> 1 =
    [\<lparr>cx = 0, cy = 0, cz = 0\<rparr>,
     \<lparr>cx = 1, cy = 0, cz = - 1\<rparr>, \<lparr>cx = 0, cy = 1, cz = - 1\<rparr>, \<lparr>cx = - 1, cy = 1, cz = 0\<rparr>,
     \<lparr>cx = - 1, cy = 0, cz = 1\<rparr>, \<lparr>cx = 0, cy = - 1, cz = 1\<rparr>]"
  by (simp add: getReachable_def reachLoop.simps expandCoord_def visitNeighbor_def
      wall_neighbors_origin hash_eval)

theorem getReachable_layers_witness:
  "(0::int) \<le> 1
   \<and> \<lparr>cx = 1, cy = 0, cz = - 1\<rparr> \<in> set (getReachable wallStore wallGrid \<lparr>cx = 0, cy = 0, cz = 0\<rparr> 1)
   \<and> \<lparr>cx = 1, cy = - 1, cz = 0\<rparr> \<notin> set (getReachable wallStore wallGrid \<lparr>cx = 0, cy = 0, cz = 0\<rparr> 1)"
proof -
  let ?o = "\<lparr>cx = 0, cy = 0, cz = 0\<rparr> :: int CubeCoord"
  let ?a = "\<lparr>cx = 1, cy = 0, cz = - 1\<rparr> :: int CubeCoord"
  let ?b = "\<lparr>cx = 1, cy = - 1, cz = 0\<rparr> :: int CubeCoord"
  have d: "(0::int) \<le> 1"
    by simp
  from getReachable_layers [OF d, of wallStore wallGrid ?o]
  have s: "set (getReachable wallStore wallGrid ?o 1)
      = {c. \<exists>n. int n \<le> 1 \<and> (?o, c) \<in> stepRel wallStore wallGrid ^^ n}"
    by blast
  have r1: "(?o, c) \<in> stepRel wallStore wallGrid ^^ 1 \<longleftrightarrow> c \<in> set (getNeighbors wallStore wallGrid ?o True)" for c
    by (simp add: stepRel_def)
  have "(?o, ?a) \<in> stepRel wallStore wallGrid ^^ 1"
    unfolding r1 by (simp add: wall_neighbors_origin)
  then have a: "?a \<in> set (getReachable wallStore wallGrid ?o 1)"
    unfolding s by (intro CollectI exI [of _ 1]) simp
  have "?b \<notin> set (getReachable wallStore wallGrid ?o 1)"
  proof
    assume "?b \<in> set (getReachable wallStore wallGrid ?o 1)"
    then obtain n where n: "int n \<le> 1" "(?o, ?b) \<in> stepRel wallStore wallGrid ^^ n"
      unfolding s by blast
    from n(1) consider "n = 0" | "n = 1"
      by linarith
    then show False
    proof cases
      case 1
      with n(2) show False by simp
    next
      case 2
      with n(2) have "?b \<in> set (getNeighbors wallStore wallGrid ?o True)"
        using r1 by simp
      then show False
        by (simp add: wall_neighbors_origin)
    qed
  qed
  with d a show ?thesis
    by blast
qed

section \<open>Properties of the pathfinder\<close>

text \<open>
  C9.  When start and end are the same coordinate, \<open>findPath\<close> returns the one-element
  path, for every store and grid (the coordinate may be absent or impassable) and for
  every heuristic and cost function.
\<close>

theorem findPath_same_coordinate:
  "findPath st grid s s heuristic costFn = Some (Some [s])"
  by (simp add: findPath_def equals_def)

subsection \<open>The default heuristic is consistent\<close>

lemma getNeighbors_add:
  "b \<in> set (getNeighbors st grid a po) \<Longrightarrow> \<exists>d \<in> set DIRECTIONS. b = add a d"
  by (auto simp: getNeighbors_def getDirections_def)

lemma getNeighbors_hasCell:
  "b \<in> set (getNeighbors st grid a po) \<Longrightarrow> hasCell st grid b"
  by (auto simp: getNeighbors_def)

lemma distance_direction:
  assumes "d \<in> set DIRECTIONS"
  shows "distance (toNum a) (toNum (add a d)) = (1::rat)"
  using assms by (auto simp: DIRECTIONS_def distance_def toNum_def add_def)

lemma defaultHeuristic_self: "defaultHeuristic goal goal = 0"
  by (simp add: defaultHeuristic_def distance_def)

lemma defaultHeuristic_nonneg: "0 \<le> defaultHeuristic a b"
  by (simp add: defaultHeuristic_def distance_def)

lemma defaultHeuristic_step:
  assumes "(a, b) \<in> stepRel st grid"
  shows "defaultHeuristic a goal \<le> 1 + defaultHeuristic b goal"
proof -
  from assms obtain d where "d \<in> set DIRECTIONS" "b = add a d"
    by (auto simp: stepRel_def dest: getNeighbors_add)
  then have "distance (toNum a) (toNum b) = (1::rat)"
    by (simp add: distance_direction)
  with distance_triangle [of "toNum a :: rat CubeCoord" "toNum goal" "toNum b"] show ?thesis
    by (simp add: defaultHeuristic_def)
qed

lemma defaultHeuristic_admissible:
  "(a, goal) \<in> stepRel st grid ^^ k \<Longrightarrow> defaultHeuristic a goal \<le> of_nat k"
proof (induction k arbitrary: a)
  case 0
  then show ?case by (simp add: defaultHeuristic_self)
next
  case (Suc k)
  then obtain b where b: "(a, b) \<in> stepRel st grid" "(b, goal) \<in> stepRel st grid ^^ k"
    by (meson relpow_Suc_D2)
  from Suc.IH [OF b(2)] defaultHeuristic_step [OF b(1), of goal] show ?case
    by simp
qed

subsection \<open>The priority queue\<close>

text \<open>
  The main loop tests \<open>isEmpty\<close> and then calls \<open>dequeue\<close>; in \<open>searchLoop\<close> the two
  are the case distinction on the list of items.
\<close>

lemma isEmpty_iff: "isEmpty items \<longleftrightarrow> items = []"
  by (simp add: isEmpty_def)

lemma dequeue_Cons: "dequeue (x # rest) = (Some (fst x), rest)"
  by (simp add: dequeue_def)

lemma set_enqueue: "set (enqueue items item priority) = insert (item, priority) (set items)"
  by (simp add: enqueue_def)

lemma sorted_enqueue: "sorted (map snd (enqueue items item priority))"
  by (simp add: enqueue_def)

lemma length_enqueue: "length (enqueue items item priority) = Suc (length items)"
  by (simp add: enqueue_def)

subsection \<open>A dequeued coordinate has a recorded cost\<close>

lemma relax_frontierCosted:
  assumes "frontierCosted s"
  shows "frontierCosted (relax heuristic costFn goal cur s nxt)"
  using assms
  by (auto simp: frontierCosted_def relax_def Let_def set_enqueue split: option.splits)

lemma relax_fold_frontierCosted:
  "frontierCosted s \<Longrightarrow> frontierCosted (foldl (relax heuristic costFn goal cur) s ns)"
  by (induction ns arbitrary: s) (simp_all add: relax_frontierCosted)

lemma initial_frontierCosted:
  "frontierCosted \<lparr>frontier = enqueue [] start 0,
                   cameFrom = [hash start \<mapsto> None],
                   costSoFar = [hash start \<mapsto> 0]\<rparr>"
  by (simp add: frontierCosted_def set_enqueue)

lemma dequeued_has_cost:
  assumes "frontierCosted s" and "frontier s = x # rest"
  shows "costSoFar s (hash (fst x)) \<noteq> None"
    and "frontierCosted (foldl (relax heuristic costFn goal (fst x)) (s\<lparr>frontier := rest\<rparr>) ns)"
proof -
  from assms have "(fst x, snd x) \<in> set (frontier s)"
    by simp
  with assms(1) show "costSoFar s (hash (fst x)) \<noteq> None"
    unfolding frontierCosted_def by blast
  from assms have "frontierCosted (s\<lparr>frontier := rest\<rparr>)"
    by (simp add: frontierCosted_def)
  then show "frontierCosted (foldl (relax heuristic costFn goal (fst x)) (s\<lparr>frontier := rest\<rparr>) ns)"
    by (rule relax_fold_frontierCosted)
qed

subsection \<open>The cells of a grid are finitely many\<close>

lemma finite_nodes: "finite (nodes st grid start)"
proof -
  have "{c. hasCell st grid c} = hash -` (fst ` set (maps st (cells grid)))"
    by (auto simp: hasCell_def mapHas_def)
  moreover have "inj hash"
    by (simp add: inj_on_def hash_eq_iff)
  ultimately have "finite {c. hasCell st grid c}"
    by (simp add: finite_vimageI)
  then show ?thesis
    by (simp add: nodes_def)
qed

lemma step_in_nodes: "(a, b) \<in> stepRel st grid \<Longrightarrow> b \<in> nodes st grid start"
  by (auto simp: stepRel_def nodes_def dest: getNeighbors_hasCell)

subsection \<open>The relaxation step keeps the invariant\<close>

lemma baseInv_frontier:
  assumes "baseInv st grid start goal s" and "(c, p) \<in> set (frontier s)"
  shows "\<exists>g. costOf s c = Some g \<and> (c \<noteq> start \<longrightarrow> g + defaultHeuristic c goal \<le> p)"
  using assms unfolding baseInv_def by blast

lemma relax_default:
  assumes "costOf s cur = Some g"
  shows "relax defaultHeuristic defaultCostFn goal cur s nxt =
     (if (case costOf s nxt of None \<Rightarrow> True | Some old \<Rightarrow> g + 1 < old)
      then s\<lparr>frontier := enqueue (frontier s) nxt (g + 1 + defaultHeuristic nxt goal),
             cameFrom := (cameFrom s)(hash nxt \<mapsto> Some cur),
             costSoFar := (costSoFar s)(hash nxt \<mapsto> g + 1)\<rparr>
      else s)"
  using assms by (simp add: relax_def costOf_def defaultCostFn_def Let_def)

lemma relax_keep:
  assumes base: "baseInv st grid start goal s"
    and cover: "coverInv st grid goal cur D s"
    and cur: "costOf s cur = Some g"
    and old: "costOf s nxt = Some old" and le: "\<not> g + 1 < old"
  shows "coverInv st grid goal cur (insert nxt D) s"
  unfolding coverInv_def
proof (intro allI impI)
  fix c g0 assume c: "costOf s c = Some g0"
  from cover c consider
    (opn) "\<exists>p. (c, p) \<in> set (frontier s) \<and> p \<le> g0 + defaultHeuristic c goal"
    | (cls) "\<forall>n. (c, n) \<in> stepRel st grid \<and> (c = cur \<longrightarrow> n \<in> D) \<longrightarrow>
              (\<exists>gn. costOf s n = Some gn \<and> gn \<le> g0 + 1)"
    unfolding coverInv_def by blast
  then show "(\<exists>p. (c, p) \<in> set (frontier s) \<and> p \<le> g0 + defaultHeuristic c goal)
        \<or> (\<forall>n. (c, n) \<in> stepRel st grid \<and> (c = cur \<longrightarrow> n \<in> insert nxt D) \<longrightarrow>
              (\<exists>gn. costOf s n = Some gn \<and> gn \<le> g0 + 1))"
  proof cases
    case opn
    then show ?thesis by blast
  next
    case cls
    have "\<exists>gn. costOf s n = Some gn \<and> gn \<le> g0 + 1"
      if n: "(c, n) \<in> stepRel st grid" "c = cur \<longrightarrow> n \<in> insert nxt D" for n
    proof (cases "c = cur \<and> n = nxt")
      case True
      with c cur old le show ?thesis by auto
    next
      case False
      with n cls show ?thesis by blast
    qed
    then show ?thesis by blast
  qed
qed

lemma relax_fire:
  fixes s :: SearchState
  assumes base: "baseInv st grid start goal s"
    and cover: "coverInv st grid goal cur D s"
    and cur: "costOf s cur = Some g"
    and step: "(cur, nxt) \<in> stepRel st grid"
    and fire: "case costOf s nxt of None \<Rightarrow> True | Some old \<Rightarrow> g + 1 < old"
  defines "s' \<equiv> s\<lparr>frontier := enqueue (frontier s) nxt (g + 1 + defaultHeuristic nxt goal),
             cameFrom := (cameFrom s)(hash nxt \<mapsto> Some cur),
             costSoFar := (costSoFar s)(hash nxt \<mapsto> g + 1)\<rparr>"
  shows "baseInv st grid start goal s'"
    and "coverInv st grid goal cur (insert nxt D) s'"
    and "costOf s' cur = Some g"
    and "potential st grid start s' \<le> potential st grid start s"
proof -
  let ?N = "nodes st grid start"
  let ?h = "\<lambda>c. defaultHeuristic c goal"
  from base have b1: "costOf s start = Some 0"
    and b2: "\<And>c g. costOf s c = Some g \<Longrightarrow>
           (\<exists>n::nat. g = of_nat n) \<and> c \<in> ?N \<and> g < of_nat (card (discovered st grid start s))"
    and b3: "\<And>c g. costOf s c = Some g \<Longrightarrow> c \<noteq> start \<Longrightarrow>
           \<exists>p gp. cameFrom s (hash c) = Some (Some p) \<and> (p, c) \<in> stepRel st grid
              \<and> costOf s p = Some gp \<and> gp + 1 \<le> g"
    and b5: "\<And>c p. (c, p) \<in> set (frontier s) \<Longrightarrow>
           \<exists>g. costOf s c = Some g \<and> (c \<noteq> start \<longrightarrow> g + ?h c \<le> p)"
    and b6: "costOf s goal \<noteq> None \<Longrightarrow> goal \<in> fst ` set (frontier s)"
    unfolding baseInv_def by blast+
  from b2 [OF cur] obtain n where gn: "g = of_nat n"
    by blast
  then have g0: "0 \<le> g"
    by simp
  have ncur: "nxt \<noteq> cur"
    using cur fire by auto
  have nstart: "nxt \<noteq> start"
    using b1 fire g0 by auto
  have cs: "costOf s' c = (if c = nxt then Some (g + 1) else costOf s c)" for c
    by (simp add: s'_def costOf_def hash_eq_iff)
  have cf: "cameFrom s' (hash c) = (if c = nxt then Some (Some cur) else cameFrom s (hash c))" for c
    by (simp add: s'_def hash_eq_iff)
  have fr: "set (frontier s') = insert (nxt, g + 1 + ?h nxt) (set (frontier s))"
    by (simp add: s'_def set_enqueue)
  have nN: "nxt \<in> ?N"
    using step by (rule step_in_nodes)
  have disc: "discovered st grid start s' = insert nxt (discovered st grid start s)"
    using nN by (auto simp: discovered_def cs)
  have fin: "finite (discovered st grid start s)"
    unfolding discovered_def using finite_nodes [of st grid start] by simp
  have card_le: "card (discovered st grid start s) \<le> card (discovered st grid start s')"
    unfolding disc using fin by (simp add: card_insert_le)
  have card_new: "card (discovered st grid start s') = Suc (card (discovered st grid start s))"
    if "costOf s nxt = None"
    unfolding disc using fin that by (simp add: discovered_def)
  have bound_nxt: "g + 1 < of_nat (card (discovered st grid start s'))"
  proof (cases "costOf s nxt")
    case None
    from b2 [OF cur] have "g < of_nat (card (discovered st grid start s))"
      by blast
    with card_new [OF None] show ?thesis
      by simp
  next
    case (Some old)
    with fire have "g + 1 < old"
      by simp
    moreover from b2 [OF Some] have "old < of_nat (card (discovered st grid start s))"
      by blast
    moreover from card_le
    have "(of_nat (card (discovered st grid start s)) :: rat) \<le> of_nat (card (discovered st grid start s'))"
      by simp
    ultimately show ?thesis
      by linarith
  qed
  show cur': "costOf s' cur = Some g"
    using ncur cur by (simp add: cs)
  have c1: "costOf s' start = Some 0"
    using nstart b1 by (simp add: cs)
  have c2: "(\<exists>n::nat. g1 = of_nat n) \<and> c \<in> ?N \<and> g1 < of_nat (card (discovered st grid start s'))"
    if "costOf s' c = Some g1" for c g1
  proof (cases "c = nxt")
    case True
    with that have "g1 = of_nat (Suc n)"
      by (simp add: cs gn)
    then have "\<exists>m::nat. g1 = of_nat m"
      by blast
    with True that nN bound_nxt show ?thesis
      by (simp add: cs)
  next
    case False
    with that have "costOf s c = Some g1"
      by (simp add: cs)
    from b2 [OF this] have n1: "\<exists>n::nat. g1 = of_nat n" and n2: "c \<in> ?N"
      and n3: "g1 < of_nat (card (discovered st grid start s))"
      by blast+
    from card_le
    have "(of_nat (card (discovered st grid start s)) :: rat) \<le> of_nat (card (discovered st grid start s'))"
      by simp
    with n3 have "g1 < of_nat (card (discovered st grid start s'))"
      by linarith
    with n1 n2 show ?thesis
      by blast
  qed
  have c3: "\<exists>p gp. cameFrom s' (hash c) = Some (Some p) \<and> (p, c) \<in> stepRel st grid
              \<and> costOf s' p = Some gp \<and> gp + 1 \<le> g1"
    if "costOf s' c = Some g1" "c \<noteq> start" for c g1
  proof (cases "c = nxt")
    case True
    with that cur' step show ?thesis
      by (auto simp: cs cf)
  next
    case False
    with that have "costOf s c = Some g1"
      by (simp add: cs)
    from b3 [OF this that(2)] obtain p gp where
      p: "cameFrom s (hash c) = Some (Some p)" "(p, c) \<in> stepRel st grid"
        "costOf s p = Some gp" "gp + 1 \<le> g1"
      by blast
    show ?thesis
    proof (cases "p = nxt")
      case True
      with p(3) fire have "g + 1 < gp"
        by simp
      with p(4) have "g + 1 + 1 \<le> g1"
        by simp
      with True False p(1,2) show ?thesis
        by (auto simp: cs cf)
    next
      case np: False
      with False p show ?thesis
        by (auto simp: cs cf)
    qed
  qed
  have c4: "sorted (map snd (frontier s'))"
    by (simp add: s'_def sorted_enqueue)
  have c5: "\<exists>g1. costOf s' c = Some g1 \<and> (c \<noteq> start \<longrightarrow> g1 + ?h c \<le> p)"
    if "(c, p) \<in> set (frontier s')" for c p
  proof (cases "c = nxt")
    case True
    show ?thesis
    proof (cases "(c, p) \<in> set (frontier s)")
      case True
      from b5 [OF this] obtain g1 where g1: "costOf s c = Some g1" "c \<noteq> start \<longrightarrow> g1 + ?h c \<le> p"
        by blast
      with \<open>c = nxt\<close> fire nstart have "g + 1 + ?h c \<le> p"
        by auto
      with \<open>c = nxt\<close> show ?thesis
        by (simp add: cs)
    next
      case False
      with that fr have "p = g + 1 + ?h nxt"
        by auto
      with True show ?thesis
        by (simp add: cs)
    qed
  next
    case False
    with that fr have "(c, p) \<in> set (frontier s)"
      by auto
    from b5 [OF this] False show ?thesis
      by (simp add: cs)
  qed
  have c6: "goal \<in> fst ` set (frontier s')" if "costOf s' goal \<noteq> None"
  proof (cases "goal = nxt")
    case True
    then show ?thesis
      unfolding fr by simp
  next
    case False
    with that have "costOf s goal \<noteq> None"
      by (simp add: cs)
    from b6 [OF this] show ?thesis
      unfolding fr by auto
  qed
  from c1 c2 c3 c4 c5 c6 show "baseInv st grid start goal s'"
    unfolding baseInv_def by blast
  show "coverInv st grid goal cur (insert nxt D) s'"
    unfolding coverInv_def
  proof (intro allI impI)
    fix c g1 assume c: "costOf s' c = Some g1"
    show "(\<exists>p. (c, p) \<in> set (frontier s') \<and> p \<le> g1 + ?h c)
        \<or> (\<forall>n. (c, n) \<in> stepRel st grid \<and> (c = cur \<longrightarrow> n \<in> insert nxt D) \<longrightarrow>
              (\<exists>gn. costOf s' n = Some gn \<and> gn \<le> g1 + 1))"
    proof (cases "c = nxt")
      case True
      with c have "g1 = g + 1"
        by (simp add: cs)
      with True fr show ?thesis
        by auto
    next
      case False
      with c have c0: "costOf s c = Some g1"
        by (simp add: cs)
      from cover c0 consider
        (opn) "\<exists>p. (c, p) \<in> set (frontier s) \<and> p \<le> g1 + ?h c"
        | (cls) "\<forall>n. (c, n) \<in> stepRel st grid \<and> (c = cur \<longrightarrow> n \<in> D) \<longrightarrow>
                  (\<exists>gn. costOf s n = Some gn \<and> gn \<le> g1 + 1)"
        unfolding coverInv_def by blast
      then show ?thesis
      proof cases
        case opn
        then show ?thesis
          unfolding fr by blast
      next
        case cls
        have "\<exists>gn. costOf s' n = Some gn \<and> gn \<le> g1 + 1"
          if n: "(c, n) \<in> stepRel st grid" "c = cur \<longrightarrow> n \<in> insert nxt D" for n
        proof (cases "n = nxt")
          case True
          show ?thesis
          proof (cases "c = cur")
            case True
            with c0 cur have "g1 = g"
              by simp
            with \<open>n = nxt\<close> show ?thesis
              by (simp add: cs)
          next
            case False
            with cls n(1) obtain gn where gn': "costOf s n = Some gn" "gn \<le> g1 + 1"
              by blast
            with \<open>n = nxt\<close> fire have "g + 1 < gn"
              by simp
            with gn'(2) \<open>n = nxt\<close> show ?thesis
              by (simp add: cs)
          qed
        next
          case False
          with n cls obtain gn where "costOf s n = Some gn" "gn \<le> g1 + 1"
            by blast
          with False show ?thesis
            by (simp add: cs)
        qed
        then show ?thesis
          by blast
      qed
    qed
  qed
  show "potential st grid start s' \<le> potential st grid start s"
  proof -
    let ?f = "\<lambda>s c. case costOf s c of None \<Rightarrow> card ?N | Some g \<Rightarrow> nat \<lfloor>g\<rfloor>"
    have finN: "finite ?N"
      by (rule finite_nodes)
    have rest: "(\<Sum>c \<in> ?N - {nxt}. ?f s' c) = (\<Sum>c \<in> ?N - {nxt}. ?f s c)"
      by (rule sum.cong) (simp_all add: cs)
    have "g + 1 = (of_nat (Suc n) :: rat)"
      by (simp add: gn)
    then have "nat \<lfloor>g + 1\<rfloor> = Suc n"
      by (simp only: floor_of_nat nat_int)
    then have new: "?f s' nxt = Suc n"
      by (simp add: cs)
    have lt: "?f s' nxt < ?f s nxt"
    proof (cases "costOf s nxt")
      case None
      have "card (discovered st grid start s') \<le> card ?N"
        using finN by (intro card_mono) (auto simp: discovered_def)
      then have "(of_nat (card (discovered st grid start s')) :: rat) \<le> of_nat (card ?N)"
        by simp
      with bound_nxt have "g + 1 < of_nat (card ?N)"
        by linarith
      then have "(of_nat (Suc n) :: rat) < of_nat (card ?N)"
        by (simp add: gn)
      then have "Suc n < card ?N"
        by (simp only: of_nat_less_iff)
      with None new show ?thesis
        by simp
    next
      case (Some old)
      from b2 [OF Some] obtain m where m: "old = of_nat m"
        by blast
      from Some fire have "g + 1 < old"
        by simp
      then have "(of_nat (Suc n) :: rat) < of_nat m"
        by (simp add: gn m)
      then have "Suc n < m"
        by (simp only: of_nat_less_iff)
      with Some new m show ?thesis
        by simp
    qed
    have "(\<Sum>c \<in> ?N. ?f s' c) = ?f s' nxt + (\<Sum>c \<in> ?N - {nxt}. ?f s' c)"
      using finN nN by (rule sum.remove)
    moreover have "(\<Sum>c \<in> ?N. ?f s c) = ?f s nxt + (\<Sum>c \<in> ?N - {nxt}. ?f s c)"
      using finN nN by (rule sum.remove)
    ultimately have "(\<Sum>c \<in> ?N. ?f s' c) < (\<Sum>c \<in> ?N. ?f s c)"
      using rest lt by simp
    moreover have "length (frontier s') = Suc (length (frontier s))"
      by (simp add: s'_def length_enqueue)
    ultimately show ?thesis
      unfolding potential_def by simp
  qed
qed

lemma relax_step:
  assumes base: "baseInv st grid start goal s"
    and cover: "coverInv st grid goal cur D s"
    and cur: "costOf s cur = Some g"
    and step: "(cur, nxt) \<in> stepRel st grid"
  defines "s' \<equiv> relax defaultHeuristic defaultCostFn goal cur s nxt"
  shows "baseInv st grid start goal s' \<and> coverInv st grid goal cur (insert nxt D) s'
    \<and> costOf s' cur = Some g \<and> potential st grid start s' \<le> potential st grid start s"
proof (cases "case costOf s nxt of None \<Rightarrow> True | Some old \<Rightarrow> g + 1 < old")
  case True
  from relax_fire [OF base cover cur step True] True show ?thesis
    unfolding s'_def relax_default [OF cur] by simp
next
  case False
  then obtain old where old: "costOf s nxt = Some old" "\<not> g + 1 < old"
    by (cases "costOf s nxt") auto
  from False have "s' = s"
    unfolding s'_def relax_default [OF cur] by simp
  with base cur relax_keep [OF base cover cur old] show ?thesis
    by simp
qed

lemma relax_fold:
  assumes "baseInv st grid start goal s"
    and "coverInv st grid goal cur D s"
    and "costOf s cur = Some g"
    and "\<forall>n \<in> set ns. (cur, n) \<in> stepRel st grid"
  defines "s' \<equiv> foldl (relax defaultHeuristic defaultCostFn goal cur) s ns"
  shows "baseInv st grid start goal s' \<and> coverInv st grid goal cur (D \<union> set ns) s'
    \<and> costOf s' cur = Some g \<and> potential st grid start s' \<le> potential st grid start s"
  using assms(1-4) unfolding s'_def
proof (induction ns arbitrary: s D)
  case Nil
  then show ?case by simp
next
  case (Cons n ns)
  let ?s1 = "relax defaultHeuristic defaultCostFn goal cur s n"
  from Cons.prems(4) have n: "(cur, n) \<in> stepRel st grid" and ns: "\<forall>m \<in> set ns. (cur, m) \<in> stepRel st grid"
    by simp_all
  from relax_step [OF Cons.prems(1-3) n]
  have 1: "baseInv st grid start goal ?s1" and 2: "coverInv st grid goal cur (insert n D) ?s1"
    and 3: "costOf ?s1 cur = Some g" and 4: "potential st grid start ?s1 \<le> potential st grid start s"
    by simp_all
  have "insert n D \<union> set ns = D \<union> set (n # ns)"
    by auto
  with Cons.IH [OF 1 2 3 ns] 4 show ?case
    by simp
qed

lemma coverInv_all:
  assumes "coverInv st grid goal cur (set (getNeighbors st grid cur True)) s"
  shows "coverInv st grid goal cur' UNIV s"
  unfolding coverInv_def
proof (intro allI impI)
  fix c g assume "costOf s c = Some g"
  with assms consider
    (opn) "\<exists>p. (c, p) \<in> set (frontier s) \<and> p \<le> g + defaultHeuristic c goal"
    | (cls) "\<forall>n. (c, n) \<in> stepRel st grid \<and> (c = cur \<longrightarrow> n \<in> set (getNeighbors st grid cur True)) \<longrightarrow>
              (\<exists>gn. costOf s n = Some gn \<and> gn \<le> g + 1)"
    unfolding coverInv_def by blast
  then show "(\<exists>p. (c, p) \<in> set (frontier s) \<and> p \<le> g + defaultHeuristic c goal)
        \<or> (\<forall>n. (c, n) \<in> stepRel st grid \<and> (c = cur' \<longrightarrow> n \<in> UNIV) \<longrightarrow>
              (\<exists>gn. costOf s n = Some gn \<and> gn \<le> g + 1))"
  proof cases
    case opn
    then show ?thesis by blast
  next
    case cls
    have "\<exists>gn. costOf s n = Some gn \<and> gn \<le> g + 1" if "(c, n) \<in> stepRel st grid" for n
      using cls that by (auto simp: stepRel_def)
    then show ?thesis by blast
  qed
qed

lemma pop_inv:
  assumes base: "baseInv st grid start goal s"
    and cover: "coverInv st grid goal cur0 UNIV s"
    and fr: "frontier s = x # rest" and ng: "fst x \<noteq> goal"
  defines "s1 \<equiv> s\<lparr>frontier := rest\<rparr>"
  shows "baseInv st grid start goal s1" and "coverInv st grid goal (fst x) {} s1"
    and "potential st grid start s1 < potential st grid start s"
    and "\<exists>g. costOf s1 (fst x) = Some g"
proof -
  have cs: "costOf s1 = costOf s"
    by (simp add: s1_def costOf_def fun_eq_iff)
  have cf: "cameFrom s1 = cameFrom s"
    by (simp add: s1_def)
  have f1: "frontier s1 = rest"
    by (simp add: s1_def)
  have disc: "discovered st grid start s1 = discovered st grid start s"
    by (simp add: discovered_def cs)
  from base fr have srt: "sorted (map snd rest)"
    by (simp add: baseInv_def)
  from base have b6: "costOf s goal \<noteq> None \<longrightarrow> goal \<in> fst ` set (frontier s)"
    by (simp add: baseInv_def)
  have g6: "costOf s goal \<noteq> None \<longrightarrow> goal \<in> fst ` set rest"
    using b6 ng unfolding fr by auto
  from base fr have b5: "\<forall>c p. (c, p) \<in> set rest \<longrightarrow>
      (\<exists>g. costOf s c = Some g \<and> (c \<noteq> start \<longrightarrow> g + defaultHeuristic c goal \<le> p))"
    unfolding baseInv_def by simp
  from base srt g6 b5 show "baseInv st grid start goal s1"
    unfolding baseInv_def cs cf f1 disc by blast
  show "coverInv st grid goal (fst x) {} s1"
    unfolding coverInv_def cs f1
  proof (intro allI impI)
    fix c g assume c: "costOf s c = Some g"
    show "(\<exists>p. (c, p) \<in> set rest \<and> p \<le> g + defaultHeuristic c goal)
        \<or> (\<forall>n. (c, n) \<in> stepRel st grid \<and> (c = fst x \<longrightarrow> n \<in> {}) \<longrightarrow>
              (\<exists>gn. costOf s n = Some gn \<and> gn \<le> g + 1))"
    proof (cases "c = fst x")
      case True
      then show ?thesis by simp
    next
      case False
      from cover c have "(\<exists>p. (c, p) \<in> set (frontier s) \<and> p \<le> g + defaultHeuristic c goal)
          \<or> (\<forall>n. (c, n) \<in> stepRel st grid \<longrightarrow> (\<exists>gn. costOf s n = Some gn \<and> gn \<le> g + 1))"
        unfolding coverInv_def by simp
      then consider
        (opn) "\<exists>p. (c, p) \<in> set (frontier s) \<and> p \<le> g + defaultHeuristic c goal"
        | (cls) "\<forall>n. (c, n) \<in> stepRel st grid \<longrightarrow> (\<exists>gn. costOf s n = Some gn \<and> gn \<le> g + 1)"
        by blast
      then show ?thesis
      proof cases
        case opn
        with False show ?thesis
          unfolding fr by auto
      next
        case cls
        then show ?thesis by blast
      qed
    qed
  qed
  show "potential st grid start s1 < potential st grid start s"
    unfolding potential_def cs f1 fr by simp
  have "(fst x, snd x) \<in> set (frontier s)"
    unfolding fr by simp
  from baseInv_frontier [OF base this] have "\<exists>g. costOf s (fst x) = Some g"
    by blast
  then show "\<exists>g. costOf s1 (fst x) = Some g"
    by (simp add: cs)
qed

lemma init_inv:
  assumes "start \<noteq> goal"
  defines "s0 \<equiv> \<lparr>frontier = enqueue [] start 0,
                 cameFrom = [hash start \<mapsto> None],
                 costSoFar = [hash start \<mapsto> 0]\<rparr>"
  shows "baseInv st grid start goal s0" and "coverInv st grid goal start UNIV s0"
proof -
  have cs: "costOf s0 c = (if c = start then Some 0 else None)" for c
    by (simp add: s0_def costOf_def hash_eq_iff)
  have fr: "frontier s0 = [(start, 0)]"
    by (simp add: s0_def enqueue_def)
  have "discovered st grid start s0 = {start}"
    by (auto simp: discovered_def cs nodes_def)
  then have card: "card (discovered st grid start s0) = 1"
    by simp
  have sn: "start \<in> nodes st grid start"
    by (simp add: nodes_def)
  show "baseInv st grid start goal s0"
    unfolding baseInv_def card fr using assms(1) sn by (auto simp: cs)
  show "coverInv st grid goal start UNIV s0"
    unfolding coverInv_def fr by (auto simp: cs defaultHeuristic_nonneg)
qed

lemma walk_cost:
  assumes base: "baseInv st grid start goal s"
    and cover: "coverInv st grid goal cur UNIV s"
    and low: "\<And>c p. (c, p) \<in> set (frontier s) \<Longrightarrow> p0 \<le> p"
  shows "(start, v) \<in> stepRel st grid ^^ j \<Longrightarrow> (v, goal) \<in> stepRel st grid ^^ m \<Longrightarrow>
    (\<exists>gv. costOf s v = Some gv \<and> gv \<le> of_nat j) \<or> (frontier s \<noteq> [] \<and> p0 \<le> of_nat (j + m))"
proof (induction j arbitrary: v m)
  case 0
  with base show ?case
    by (auto simp: baseInv_def)
next
  case (Suc j)
  from Suc.prems(1) obtain u where u: "(start, u) \<in> stepRel st grid ^^ j" "(u, v) \<in> stepRel st grid"
    by auto
  from u(2) Suc.prems(2) have ug: "(u, goal) \<in> stepRel st grid ^^ Suc m"
    by (rule relpow_Suc_I2)
  from Suc.IH [OF u(1) ug] consider
    (cost) gu where "costOf s u = Some gu" "gu \<le> of_nat j"
    | (front) "frontier s \<noteq> []" "p0 \<le> of_nat (j + Suc m)"
    by blast
  then show ?case
  proof cases
    case front
    then show ?thesis by simp
  next
    case cost
    from cover cost(1) have "(\<exists>p. (u, p) \<in> set (frontier s) \<and> p \<le> gu + defaultHeuristic u goal)
        \<or> (\<forall>n. (u, n) \<in> stepRel st grid \<longrightarrow> (\<exists>gn. costOf s n = Some gn \<and> gn \<le> gu + 1))"
      unfolding coverInv_def by simp
    then consider
      (opn) p where "(u, p) \<in> set (frontier s)" "p \<le> gu + defaultHeuristic u goal"
      | (cls) "\<forall>n. (u, n) \<in> stepRel st grid \<longrightarrow> (\<exists>gn. costOf s n = Some gn \<and> gn \<le> gu + 1)"
      by blast
    then show ?thesis
    proof cases
      case opn
      from defaultHeuristic_admissible [OF ug] have "defaultHeuristic u goal \<le> of_nat (Suc m)" .
      with opn(2) cost(2) low [OF opn(1)] have "p0 \<le> of_nat j + of_nat (Suc m)"
        by linarith
      moreover from opn(1) have "frontier s \<noteq> []"
        by auto
      ultimately show ?thesis
        by simp
    next
      case cls
      with u(2) obtain gn where "costOf s v = Some gn" "gn \<le> gu + 1"
        by blast
      with cost(2) show ?thesis
        by auto
    qed
  qed
qed

lemma walk_relpow:
  assumes "w \<noteq> []" and "successively (\<lambda>a b. (a, b) \<in> R) w"
  shows "(hd w, last w) \<in> R ^^ (length w - 1)"
  using assms
proof (induction w)
  case Nil
  then show ?case by simp
next
  case (Cons a w)
  show ?case
  proof (cases w)
    case Nil
    then show ?thesis by simp
  next
    case (Cons b w')
    with Cons.prems have ab: "(a, b) \<in> R" and sw: "successively (\<lambda>a b. (a, b) \<in> R) w"
      by simp_all
    from Cons.IH sw Cons have "(b, last w) \<in> R ^^ (length w - 1)"
      by simp
    with ab have "(a, last w) \<in> R ^^ Suc (length w - 1)"
      by (rule relpow_Suc_I2)
    with Cons show ?thesis
      by simp
  qed
qed

lemma reconstructLoop_walk:
  assumes base: "baseInv st grid start goal s"
  shows "costOf s c = Some g \<Longrightarrow> g \<le> of_nat n \<Longrightarrow>
    \<exists>w. reconstructLoop (cameFrom s) (hash start) (Some c) path = Some (w @ path)
      \<and> w \<noteq> [] \<and> hd w = start \<and> last w = c
      \<and> successively (\<lambda>a b. (a, b) \<in> stepRel st grid) w
      \<and> of_nat (length w) \<le> g + 1"
proof (induction n arbitrary: c g path)
  case 0
  from base 0(1) obtain k :: nat where "g = of_nat k"
    unfolding baseInv_def by blast
  with 0(2) have g: "g = 0"
    by simp
  have "c = start"
  proof (rule ccontr)
    assume "c \<noteq> start"
    with base 0(1) obtain p gp where "costOf s p = Some gp" "gp + 1 \<le> g"
      unfolding baseInv_def by blast
    moreover from base this(1) obtain k :: nat where "gp = of_nat k"
      unfolding baseInv_def by blast
    ultimately show False
      using g by simp
  qed
  then have "reconstructLoop (cameFrom s) (hash start) (Some c) path = Some ([start] @ path)"
    by (subst reconstructLoop.simps) simp
  with \<open>c = start\<close> g show ?case
    by (intro exI [of _ "[start]"]) simp
next
  case (Suc n)
  show ?case
  proof (cases "c = start")
    case True
    then have "reconstructLoop (cameFrom s) (hash start) (Some c) path = Some ([start] @ path)"
      by (subst reconstructLoop.simps) simp
    moreover from base Suc.prems(1) obtain k :: nat where "g = of_nat k"
      unfolding baseInv_def by blast
    then have "0 \<le> g"
      by simp
    ultimately show ?thesis
      using True by (intro exI [of _ "[start]"]) simp
  next
    case False
    with base Suc.prems(1) obtain p gp where
      p: "cameFrom s (hash c) = Some (Some p)" "(p, c) \<in> stepRel st grid"
        "costOf s p = Some gp" "gp + 1 \<le> g"
      unfolding baseInv_def by blast
    from p(4) Suc.prems(2) have "gp \<le> of_nat n"
      by simp
    from Suc.IH [OF p(3) this, of "c # path"] obtain w where
      w: "reconstructLoop (cameFrom s) (hash start) (Some p) (c # path) = Some (w @ c # path)"
        "w \<noteq> []" "hd w = start" "last w = p"
        "successively (\<lambda>a b. (a, b) \<in> stepRel st grid) w"
        "of_nat (length w) \<le> gp + 1"
      by blast
    from False have "hash c \<noteq> hash start"
      by (simp add: hash_eq_iff)
    with p(1) w(1)
    have "reconstructLoop (cameFrom s) (hash start) (Some c) path = Some ((w @ [c]) @ path)"
      by (subst reconstructLoop.simps) simp
    moreover from w(2,5,4) p(2) have "successively (\<lambda>a b. (a, b) \<in> stepRel st grid) (w @ [c])"
      by (simp add: successively_append_iff)
    moreover from w(6) p(4) have "of_nat (length (w @ [c])) \<le> g + 1"
      by simp
    ultimately show ?thesis
      using w(2,3) by (intro exI [of _ "w @ [c]"]) simp
  qed
qed

lemma searchLoop_correct:
  assumes ne: "start \<noteq> goal"
  shows "baseInv st grid start goal s \<Longrightarrow> coverInv st grid goal cur UNIV s \<Longrightarrow>
    \<exists>r. searchLoop st grid start goal defaultHeuristic defaultCostFn s = Some r
      \<and> searchPost st grid start goal r"
proof (induction "potential st grid start s" arbitrary: s cur rule: less_induct)
  case less
  note base = less.prems(1) and cover = less.prems(2)
  show ?case
  proof (cases "frontier s")
    case Nil
    have sl: "searchLoop st grid start goal defaultHeuristic defaultCostFn s = Some None"
      by (subst searchLoop.simps) (simp add: Nil)
    have "(start, goal) \<notin> stepRel st grid ^^ k" for k
    proof
      assume k: "(start, goal) \<in> stepRel st grid ^^ k"
      have g0: "(goal, goal) \<in> stepRel st grid ^^ 0"
        by simp
      have "\<And>c p. (c, p) \<in> set (frontier s) \<Longrightarrow> (0::rat) \<le> p"
        by (simp add: Nil)
      from walk_cost [of st grid start goal s cur 0 goal k 0, OF base cover this k g0] Nil
      have "costOf s goal \<noteq> None"
        by auto
      with base have "goal \<in> fst ` set (frontier s)"
        by (simp add: baseInv_def)
      with Nil show False
        by simp
    qed
    with sl show ?thesis
      by (simp add: searchPost_def)
  next
    case (Cons x rest)
    show ?thesis
    proof (cases "hash (fst x) = hash goal")
      case True
      then have xg: "fst x = goal"
        by (simp add: hash_eq_iff)
      have "(goal, snd x) \<in> set (frontier s)"
        unfolding Cons using xg by (cases x) simp
      from baseInv_frontier [OF base this] ne obtain g where
        g: "costOf s goal = Some g" "g + defaultHeuristic goal goal \<le> snd x"
        by auto
      then have gx: "g \<le> snd x"
        by (simp add: defaultHeuristic_self)
      from base g(1) obtain n :: nat where n: "g = of_nat n"
        unfolding baseInv_def by blast
      then have "g \<le> of_nat n"
        by simp
      from reconstructLoop_walk [OF base g(1) this, of "[]"] obtain w where
        w: "reconstructLoop (cameFrom s) (hash start) (Some goal) [] = Some w"
          "w \<noteq> []" "hd w = start" "last w = goal"
          "successively (\<lambda>a b. (a, b) \<in> stepRel st grid) w"
          "of_nat (length w) \<le> g + 1"
        by auto
      have sl: "searchLoop st grid start goal defaultHeuristic defaultCostFn s = Some (Some w)"
        by (subst searchLoop.simps) (simp add: Cons True Let_def reconstructPath_def w(1))
      from base have "sorted (map snd (frontier s))"
        by (simp add: baseInv_def)
      then have low: "\<And>c p. (c, p) \<in> set (frontier s) \<Longrightarrow> snd x \<le> p"
        unfolding Cons by (cases x) force
      have "length w \<le> Suc k" if k: "(start, goal) \<in> stepRel st grid ^^ k" for k
      proof -
        have g0: "(goal, goal) \<in> stepRel st grid ^^ 0"
          by simp
        from walk_cost [of st grid start goal s cur "snd x" goal k 0, OF base cover low k g0]
        have "(\<exists>gv. costOf s goal = Some gv \<and> gv \<le> of_nat k) \<or> snd x \<le> of_nat k"
          by auto
        with g(1) gx have "g \<le> of_nat k"
          by auto
        with w(6) have "(of_nat (length w) :: rat) \<le> of_nat (Suc k)"
          by simp
        then show ?thesis
          by (simp only: of_nat_le_iff)
      qed
      with sl w show ?thesis
        by (simp add: searchPost_def)
    next
      case False
      then have ng: "fst x \<noteq> goal"
        by auto
      let ?s1 = "s\<lparr>frontier := rest\<rparr>"
      let ?ns = "getNeighbors st grid (fst x) True"
      let ?s2 = "foldl (relax defaultHeuristic defaultCostFn goal (fst x)) ?s1 ?ns"
      from pop_inv [OF base cover Cons ng]
      have b1: "baseInv st grid start goal ?s1" and c1: "coverInv st grid goal (fst x) {} ?s1"
        and p1: "potential st grid start ?s1 < potential st grid start s"
        and g1: "\<exists>g. costOf ?s1 (fst x) = Some g"
        by simp_all
      from g1 obtain g where g: "costOf ?s1 (fst x) = Some g"
        by blast
      have st: "\<forall>n \<in> set ?ns. (fst x, n) \<in> stepRel st grid"
        by (simp add: stepRel_def)
      from relax_fold [OF b1 c1 g st]
      have b2: "baseInv st grid start goal ?s2"
        and c2: "coverInv st grid goal (fst x) (set ?ns) ?s2"
        and p2: "potential st grid start ?s2 \<le> potential st grid start ?s1"
        by simp_all
      from c2 have c2': "coverInv st grid goal (fst x) UNIV ?s2"
        by (rule coverInv_all)
      from p1 p2 have "potential st grid start ?s2 < potential st grid start s"
        by simp
      from less.hyps [OF this b2 c2'] obtain r where
        r: "searchLoop st grid start goal defaultHeuristic defaultCostFn ?s2 = Some r"
          "searchPost st grid start goal r"
        by blast
      have "searchLoop st grid start goal defaultHeuristic defaultCostFn s = Some r"
        by (subst searchLoop.simps) (simp add: Cons False Let_def r(1))
      with r(2) show ?thesis
        by blast
    qed
  qed
qed

lemma passableWalk_relpow:
  assumes "passableWalk st grid path"
  shows "(hd path, last path) \<in> stepRel st grid ^^ (length path - 1)"
proof -
  from assms have "path \<noteq> []" and "successively (\<lambda>a b. (a, b) \<in> stepRel st grid) path"
    by (simp_all add: passableWalk_def stepRel_def)
  then show ?thesis
    by (rule walk_relpow)
qed

text \<open>
  C1.  With the default cost and heuristic \<open>findPath\<close> always returns.  It returns null
  exactly when no number of passable hops leads from start to end; otherwise it returns
  a walk over passable neighbors from start to end whose hop count (one less than its
  number of cells) is the least number of passable hops from start to end.
\<close>

theorem findPath_shortest:
  "\<exists>r. findPath st grid start goal defaultHeuristic defaultCostFn = Some r
    \<and> (r = None \<longleftrightarrow> (\<forall>k. (start, goal) \<notin> stepRel st grid ^^ k))
    \<and> (\<forall>path. r = Some path \<longrightarrow>
          passableWalk st grid path \<and> hd path = start \<and> last path = goal
          \<and> (start, goal) \<in> stepRel st grid ^^ (length path - 1)
          \<and> (\<forall>k. (start, goal) \<in> stepRel st grid ^^ k \<longrightarrow> length path - 1 \<le> k))"
proof (cases "start = goal")
  case True
  then have f: "findPath st grid start goal defaultHeuristic defaultCostFn = Some (Some [start])"
    by (simp add: findPath_def equals_def)
  have "(start, goal) \<in> stepRel st grid ^^ 0"
    using True by simp
  then have "\<not> (\<forall>k. (start, goal) \<notin> stepRel st grid ^^ k)"
    by blast
  with f True show ?thesis
    by (simp add: passableWalk_def)
next
  case False
  let ?s0 = "\<lparr>frontier = enqueue [] start 0,
              cameFrom = [hash start \<mapsto> None],
              costSoFar = [hash start \<mapsto> 0]\<rparr>"
  from False have f: "findPath st grid start goal defaultHeuristic defaultCostFn
      = searchLoop st grid start goal defaultHeuristic defaultCostFn ?s0"
    by (simp add: findPath_def equals_def Let_def) (auto intro: CubeCoord.equality)
  from searchLoop_correct [OF False init_inv [OF False]] obtain r where
    r: "searchLoop st grid start goal defaultHeuristic defaultCostFn ?s0 = Some r"
      "searchPost st grid start goal r"
    by blast
  show ?thesis
  proof (cases r)
    case None
    with r f show ?thesis
      by (simp add: searchPost_def)
  next
    case (Some path)
    with r(2) have p: "path \<noteq> []" "hd path = start" "last path = goal"
      "successively (\<lambda>a b. (a, b) \<in> stepRel st grid) path"
      "\<And>k. (start, goal) \<in> stepRel st grid ^^ k \<Longrightarrow> length path \<le> Suc k"
      by (simp_all add: searchPost_def)
    from p(1,4) have w: "passableWalk st grid path"
      by (simp add: passableWalk_def stepRel_def)
    from passableWalk_relpow [OF w] p(2,3)
    have e: "(start, goal) \<in> stepRel st grid ^^ (length path - 1)"
      by simp
    have "length path - 1 \<le> k" if "(start, goal) \<in> stepRel st grid ^^ k" for k
      using p(5) [OF that] by simp
    with r(1) f Some w p(2,3) e show ?thesis
      by auto
  qed
qed

lemma wall_neighbors_east:
  "getNeighbors wallStore wallGrid \<lparr>cx = 1, cy = 0, cz = - 1\<rparr> True =
    [\<lparr>cx = 0, cy = 1, cz = - 1\<rparr>, \<lparr>cx = 0, cy = 0, cz = 0\<rparr>]"
  by (simp add: getNeighbors_def getDirections_def DIRECTIONS_def add_def hasCell_def mapHas_def
      isPassable_def getCell_def mapGet_def wallStore_maps hash_eval)

theorem findPath_shortest_witness:
  "\<exists>path. findPath wallStore wallGrid \<lparr>cx = 1, cy = 0, cz = - 1\<rparr> \<lparr>cx = 0, cy = - 1, cz = 1\<rparr>
        defaultHeuristic defaultCostFn = Some (Some path)
     \<and> length path = 3 \<and> hd path = \<lparr>cx = 1, cy = 0, cz = - 1\<rparr> \<and> last path = \<lparr>cx = 0, cy = - 1, cz = 1\<rparr>
     \<and> passableWalk wallStore wallGrid path"
proof -
  let ?a = "\<lparr>cx = 1, cy = 0, cz = - 1\<rparr> :: int CubeCoord"
  let ?o = "\<lparr>cx = 0, cy = 0, cz = 0\<rparr> :: int CubeCoord"
  let ?b = "\<lparr>cx = 0, cy = - 1, cz = 1\<rparr> :: int CubeCoord"
  let ?R = "stepRel wallStore wallGrid"
  have ao: "(?a, ?o) \<in> ?R" and ob: "(?o, ?b) \<in> ?R" and ab: "(?a, ?b) \<notin> ?R"
    by (simp_all add: stepRel_def wall_neighbors_east wall_neighbors_origin)
  from ao ob have two: "(?a, ?b) \<in> ?R ^^ 2"
    by (auto simp: numeral_2_eq_2)
  have zero: "(?a, ?b) \<notin> ?R ^^ 0"
    by simp
  from ab have one: "(?a, ?b) \<notin> ?R ^^ 1"
    by simp
  from findPath_shortest [of wallStore wallGrid ?a ?b] obtain r where
    r: "findPath wallStore wallGrid ?a ?b defaultHeuristic defaultCostFn = Some r"
      "r = None \<longleftrightarrow> (\<forall>k. (?a, ?b) \<notin> ?R ^^ k)"
      "\<And>path. r = Some path \<Longrightarrow>
          passableWalk wallStore wallGrid path \<and> hd path = ?a \<and> last path = ?b
          \<and> (?a, ?b) \<in> ?R ^^ (length path - 1)
          \<and> (\<forall>k. (?a, ?b) \<in> ?R ^^ k \<longrightarrow> length path - 1 \<le> k)"
    by blast
  from r(2) two obtain path where p: "r = Some path"
    by (cases r) auto
  from r(3) [OF p] two have w: "passableWalk wallStore wallGrid path" "hd path = ?a" "last path = ?b"
    and m: "(?a, ?b) \<in> ?R ^^ (length path - 1)" and le: "length path - 1 \<le> 2"
    by blast+
  from le consider "length path - 1 = 0" | "length path - 1 = 1" | "length path - 1 = 2"
    by linarith
  then have "length path - 1 = 2"
  proof cases
    case 1
    with m zero show ?thesis by simp
  next
    case 2
    with m one show ?thesis by simp
  next
    case 3
    then show ?thesis .
  qed
  then have "length path = 3"
    by simp
  with r(1) p w show ?thesis
    by simp
qed

end
